theory Spec2Isabelle
  imports Main "HOL-Library.Word" "HOL-Library.Log_Nat" "HOL-Library.Monad_Syntax"
begin

unbundle bit_operations_syntax

section \<open>The BTW codec of btw.h\<close>

text \<open>
  A shallow embedding of \<^verbatim>\<open>btw.h\<close>. C integers are values of type \<open>int\<close> (or \<open>nat\<close>
  where the code only counts upwards); every conversion to a narrower C type and every
  operation that can leave its type is written out with \<open>take_bit\<close> or \<open>signed_take_bit\<close>.
  Buffers are lists; an access outside a buffer is undefined in C and is the result \<open>None\<close>
  here. The struct fields have their C widths on an LP64 platform.
\<close>

subsection \<open>Data model\<close>

text \<open>The three build-time choices of \<^verbatim>\<open>btw_sample_fmt\<close>.\<close>

datatype sample_fmt = BTW_U8 | BTW_S16 | BTW_S32

record btw_def =
  channels :: "32 word"
  bits_per_sample :: "32 word"
  sample_rate :: "64 word"
  sample_count :: "64 word"

type_synonym byte = "8 word"

text \<open>A bit cursor: the byte position and the bit position within that byte.\<close>

type_synonym cursor = "nat \<times> nat"

text \<open>What a call leaves behind: undefined behaviour (an access outside a buffer, a null
  dereference, a loop that never ends), \<^verbatim>\<open>exit(EXIT_FAILURE)\<close>, or a normal return.\<close>

datatype 'a outcome = Undefined | Exit_Failure | Returned 'a

definition BTW_BLOCK_SIZE :: nat where
  "BTW_BLOCK_SIZE = 512"

definition BTW_MAGIC :: int where
  "BTW_MAGIC = 98 OR push_bit 8 116 OR push_bit 16 119 OR push_bit 24 102"

subsection \<open>C integer conversions\<close>

definition s64 :: "int \<Rightarrow> int" where
  "s64 x = signed_take_bit 63 x"

definition u64 :: "nat \<Rightarrow> nat" where
  "u64 x = nat (take_bit 64 (int x))"

definition u32 :: "nat \<Rightarrow> nat" where
  "u32 x = nat (take_bit 32 (int x))"

definition u8 :: "nat \<Rightarrow> nat" where
  "u8 x = nat (take_bit 8 (int x))"

text \<open>The value an object of type \<^verbatim>\<open>btw_sample_fmt\<close> holds after \<open>x\<close> is stored in it.\<close>

definition fmt_value :: "sample_fmt \<Rightarrow> int \<Rightarrow> int" where
  "fmt_value f x =
     (case f of BTW_U8 \<Rightarrow> take_bit 8 x
      | BTW_S16 \<Rightarrow> signed_take_bit 15 x
      | BTW_S32 \<Rightarrow> signed_take_bit 31 x)"

definition fmt_size :: "sample_fmt \<Rightarrow> nat" where
  "fmt_size f = (case f of BTW_U8 \<Rightarrow> 1 | BTW_S16 \<Rightarrow> 2 | BTW_S32 \<Rightarrow> 4)"

text \<open>\<^verbatim>\<open>E1 << E2\<close> where both operands have been promoted to the 32-bit \<^verbatim>\<open>int\<close>. C leaves
  the result undefined when it does not fit or when the count reaches 32; the model takes
  what the shift instructions of x86-64 and AArch64 give: the count modulo 32, the low
  32 bits of the product, read as two's complement.\<close>

definition shl_int :: "int \<Rightarrow> nat \<Rightarrow> int" where
  "shl_int x n = signed_take_bit 31 (push_bit (n mod 32) x)"

text \<open>Signed division of C, which truncates towards zero.\<close>

definition c_div :: "int \<Rightarrow> int \<Rightarrow> int" where
  "c_div a b = sgn a * sgn b * (\<bar>a\<bar> div \<bar>b\<bar>)"

subsection \<open>Small helpers\<close>

definition BTW_abs :: "int \<Rightarrow> int" where
  "BTW_abs number = (if number \<ge> 0 then number else s64 (number * - 1))"

text \<open>\<^verbatim>\<open>while (number >>= 1) r++;\<close> with \<open>r\<close> a \<^verbatim>\<open>uint8_t\<close>. The shift of a negative
  \<^verbatim>\<open>long long\<close> is arithmetic, so the loop never ends on a negative number.\<close>

partial_function (option) bits_required_loop :: "int \<Rightarrow> nat \<Rightarrow> nat option" where
  "bits_required_loop number r =
     (let number' = drop_bit 1 number
      in if number' \<noteq> 0 then bits_required_loop number' ((r + 1) mod 256) else Some r)"

declare bits_required_loop.simps [code]

definition bits_required :: "int \<Rightarrow> nat option" where
  "bits_required number = bits_required_loop number 0"

subsection \<open>Writing bits\<close>

definition put_bit :: "byte list \<Rightarrow> cursor \<Rightarrow> int \<Rightarrow> (byte list \<times> cursor) option" where
  "put_bit output cur b =
     (case cur of (out_pos, bit_pos) \<Rightarrow>
        if out_pos < length output then
          let output' = output[out_pos := output ! out_pos
                                  OR word_of_int (push_bit bit_pos b AND 255)];
              bit_pos' = (bit_pos + 1) mod 8
          in Some (output', (out_pos + (if bit_pos' = 0 then 1 else 0), bit_pos'))
        else None)"

text \<open>The inner \<^verbatim>\<open>while (bits >= 8)\<close> of \<^verbatim>\<open>put_number\<close>: whole bytes are assigned.\<close>

fun put_number_loop ::
  "byte list \<Rightarrow> nat \<Rightarrow> nat \<Rightarrow> int \<Rightarrow> (byte list \<times> nat \<times> nat \<times> int) option" where
  "put_number_loop output out_pos bits number =
     (if bits \<ge> 8 then
        (if out_pos < length output then
           put_number_loop (output[out_pos := word_of_int (number AND 255)])
             (out_pos + 1) (bits - 8) (drop_bit 8 number)
         else None)
      else Some (output, out_pos, bits, number))"

declare put_number_loop.simps [simp del]

definition put_number ::
  "byte list \<Rightarrow> cursor \<Rightarrow> nat \<Rightarrow> int \<Rightarrow> (byte list \<times> cursor) option" where
  "put_number output cur bits number =
     (case cur of (out_pos, bit_pos) \<Rightarrow>
        do {
          (output2, out_pos2, bit_pos2, bits2, number2) \<leftarrow>
            (if bits > 8 - bit_pos then
               (if out_pos < length output then
                  do {
                    let cast = number AND drop_bit bit_pos 255;
                    let output1 = output[out_pos := output ! out_pos
                                           OR word_of_int (push_bit bit_pos cast AND 255)];
                    (output2, out_pos2, bits2, number2) \<leftarrow>
                      put_number_loop output1 (out_pos + 1) (bits - (8 - bit_pos))
                        (drop_bit (8 - bit_pos) number);
                    Some (output2, out_pos2, 0, bits2, number2)
                  }
                else None)
             else Some (output, out_pos, bit_pos, bits, number));
          if bits2 \<noteq> 0 then
            (if out_pos2 < length output2 then
               do {
                 let cast = number2 AND drop_bit (8 - bits2) 255;
                 let output3 = output2[out_pos2 := output2 ! out_pos2
                                         OR word_of_int (push_bit bit_pos2 cast)];
                 let bit_pos3 = (bit_pos2 + bits2) mod 8;
                 Some (output3, (out_pos2 + (if bit_pos3 = 0 then 1 else 0), bit_pos3))
               }
             else None)
          else Some (output2, (out_pos2, bit_pos2))
        })"

text \<open>The inner \<^verbatim>\<open>while (ones >= 8)\<close> of \<^verbatim>\<open>put_ones\<close>.\<close>

fun put_ones_loop :: "byte list \<Rightarrow> nat \<Rightarrow> nat \<Rightarrow> (byte list \<times> nat \<times> nat) option" where
  "put_ones_loop output out_pos ones =
     (if ones \<ge> 8 then
        (if out_pos < length output then
           put_ones_loop (output[out_pos := 255]) (out_pos + 1) (ones - 8)
         else None)
      else Some (output, out_pos, ones))"

declare put_ones_loop.simps [simp del]

definition put_ones :: "byte list \<Rightarrow> cursor \<Rightarrow> nat \<Rightarrow> (byte list \<times> cursor) option" where
  "put_ones output cur ones =
     (case cur of (out_pos, bit_pos) \<Rightarrow>
        do {
          (output2, out_pos2, bit_pos2, ones2) \<leftarrow>
            (if ones > 8 - bit_pos then
               (if out_pos < length output then
                  do {
                    let output1 = output[out_pos := output ! out_pos
                                           OR word_of_int (push_bit bit_pos 255 AND 255)];
                    (output2, out_pos2, ones2) \<leftarrow>
                      put_ones_loop output1 (out_pos + 1) (ones - (8 - bit_pos));
                    Some (output2, out_pos2, 0, ones2)
                  }
                else None)
             else Some (output, out_pos, bit_pos, ones));
          if ones2 \<noteq> 0 then
            (if out_pos2 < length output2 then
               do {
                 let output3 = output2[out_pos2 := output2 ! out_pos2
                      OR word_of_int (push_bit bit_pos2 (drop_bit (8 - ones2) 255) AND 255)];
                 let bit_pos3 = (bit_pos2 + ones2) mod 8;
                 Some (output3, (out_pos2 + (if bit_pos3 = 0 then 1 else 0), bit_pos3))
               }
             else None)
          else Some (output2, (out_pos2, bit_pos2))
        })"

subsection \<open>Reading bits\<close>

definition grab_bit :: "byte list \<Rightarrow> cursor \<Rightarrow> (int \<times> cursor) option" where
  "grab_bit input cur =
     (case cur of (in_pos, bit_pos) \<Rightarrow>
        if in_pos < length input then
          let r = drop_bit bit_pos (uint (input ! in_pos)) AND 1;
              bit_pos' = (bit_pos + 1) mod 8
          in Some (r, (in_pos + (if bit_pos' = 0 then 1 else 0), bit_pos'))
        else None)"

text \<open>The inner \<^verbatim>\<open>while (bits >= 8)\<close> of \<^verbatim>\<open>grab_number\<close>. The byte is promoted to
  \<^verbatim>\<open>int\<close> and shifted there, before it is widened to the \<^verbatim>\<open>long long\<close> \<open>r\<close>.\<close>

fun grab_number_loop ::
  "byte list \<Rightarrow> nat \<Rightarrow> nat \<Rightarrow> nat \<Rightarrow> int \<Rightarrow> (nat \<times> nat \<times> nat \<times> int) option" where
  "grab_number_loop input in_pos bits tally r =
     (if bits \<ge> 8 then
        (if in_pos < length input then
           grab_number_loop input (in_pos + 1) (bits - 8) (tally + 8)
             (r OR shl_int (uint (input ! in_pos)) tally)
         else None)
      else Some (in_pos, bits, tally, r))"

declare grab_number_loop.simps [simp del]

definition grab_number :: "byte list \<Rightarrow> cursor \<Rightarrow> nat \<Rightarrow> (int \<times> cursor) option" where
  "grab_number input cur bits =
     (case cur of (in_pos, bit_pos) \<Rightarrow>
        do {
          (in_pos2, bit_pos2, bits2, tally2, r2) \<leftarrow>
            (if bits > 8 - bit_pos then
               (if in_pos < length input then
                  do {
                    let r = drop_bit bit_pos (uint (input ! in_pos));
                    (in_pos2, bits2, tally2, r2) \<leftarrow>
                      grab_number_loop input (in_pos + 1) (bits - (8 - bit_pos))
                        (8 - bit_pos) r;
                    Some (in_pos2, 0, bits2, tally2, r2)
                  }
                else None)
             else Some (in_pos, bit_pos, bits, 0, 0));
          if bits2 \<noteq> 0 then
            (if in_pos2 < length input then
               do {
                 let r3 = r2 OR shl_int (drop_bit bit_pos2 (uint (input ! in_pos2))
                                          AND drop_bit (8 - bits2) 255) tally2;
                 let bit_pos3 = (bit_pos2 + bits2) mod 8;
                 Some (r3, (in_pos2 + (if bit_pos3 = 0 then 1 else 0), bit_pos3))
               }
             else None)
          else Some (r2, (in_pos2, bit_pos2))
        })"

subsection \<open>The encoder\<close>

text \<open>\<^verbatim>\<open>samples[frame * def->channels + chan]\<close>, the index computed in
  \<^verbatim>\<open>unsigned long long\<close>; \<open>None\<close> outside the caller's buffer.\<close>

definition sample_index :: "btw_def \<Rightarrow> nat \<Rightarrow> nat \<Rightarrow> nat" where
  "sample_index def frame chan = u64 (frame * unat (channels def) + chan)"

definition sample_at :: "sample_fmt \<Rightarrow> int list \<Rightarrow> btw_def \<Rightarrow> nat \<Rightarrow> nat \<Rightarrow> int option" where
  "sample_at fmt samples def frame chan =
     (let idx = sample_index def frame chan
      in if idx < length samples then Some (fmt_value fmt (samples ! idx)) else None)"

text \<open>The number of frames of the block that starts at frame \<open>i\<close>.\<close>

definition block_cap :: "btw_def \<Rightarrow> nat \<Rightarrow> nat" where
  "block_cap def i =
     (if unat (sample_count def) - i < BTW_BLOCK_SIZE then unat (sample_count def) - i
      else BTW_BLOCK_SIZE)"

text \<open>The first \<^verbatim>\<open>for (l = 0; l < cap; l++)\<close> of a channel: the sum of the absolute
  differences.\<close>

function encode_av_diff ::
  "sample_fmt \<Rightarrow> int list \<Rightarrow> btw_def \<Rightarrow> nat \<Rightarrow> nat \<Rightarrow> nat \<Rightarrow> nat \<Rightarrow> int \<Rightarrow> int \<Rightarrow> int option"
  where
  "encode_av_diff fmt samples def i cap chan l prev_sample av_diff =
     (if l < cap then
        do {
          cur_sample \<leftarrow> sample_at fmt samples def (i + l) chan;
          let diff = s64 (cur_sample - prev_sample);
          encode_av_diff fmt samples def i cap chan (l + 1) cur_sample
            (s64 (av_diff + BTW_abs diff))
        }
      else Some av_diff)"
  by pat_completeness auto
termination
  by (relation "measure (\<lambda>(fmt, samples, def, i, cap, chan, l, p, a). cap - l)") auto

declare encode_av_diff.simps [simp del]

definition encode_rice_len ::
  "sample_fmt \<Rightarrow> int list \<Rightarrow> btw_def \<Rightarrow> nat \<Rightarrow> nat \<Rightarrow> nat \<Rightarrow> nat option" where
  "encode_rice_len fmt samples def i cap chan =
     do {
       av_diff \<leftarrow> encode_av_diff fmt samples def i cap chan 0 0 0;
       bits_required (c_div av_diff (int BTW_BLOCK_SIZE))
     }"

text \<open>The second \<^verbatim>\<open>for (l = 0; l < cap; l++)\<close> of a channel: one codeword per sample.\<close>

function encode_samples ::
  "sample_fmt \<Rightarrow> int list \<Rightarrow> btw_def \<Rightarrow> nat \<Rightarrow> nat \<Rightarrow> nat \<Rightarrow> nat \<Rightarrow> nat \<Rightarrow> int \<Rightarrow>
   byte list \<times> cursor \<Rightarrow> (byte list \<times> cursor) option" where
  "encode_samples fmt samples def i cap chan rice_len l prev_sample st =
     (if l < cap then
        do {
          cur_sample \<leftarrow> sample_at fmt samples def (i + l) chan;
          let diff = s64 (cur_sample - prev_sample);
          (output1, cur1) \<leftarrow> put_bit (fst st) (snd st) (if diff < 0 then 1 else 0);
          let diff = BTW_abs diff;
          let rice_un = u64 (nat (drop_bit rice_len diff));
          (output2, cur2) \<leftarrow> put_ones output1 cur1 (u32 rice_un);
          (output3, cur3) \<leftarrow> put_bit output2 cur2 0;
          (output4, cur4) \<leftarrow> put_number output3 cur3 (u8 rice_len) diff;
          encode_samples fmt samples def i cap chan rice_len (l + 1) cur_sample
            (output4, cur4)
        }
      else Some st)"
  by pat_completeness auto
termination
  by (relation "measure (\<lambda>(fmt, samples, def, i, cap, chan, r, l, p, st). cap - l)") auto

declare encode_samples.simps [simp del]

text \<open>The body of \<^verbatim>\<open>for (chan = 0; chan < def->channels; chan++)\<close>: one block record.\<close>

definition encode_channel ::
  "sample_fmt \<Rightarrow> int list \<Rightarrow> btw_def \<Rightarrow> nat \<Rightarrow> nat \<Rightarrow> nat \<Rightarrow> nat \<Rightarrow>
   byte list \<times> cursor \<Rightarrow> (byte list \<times> cursor) option" where
  "encode_channel fmt samples def bits_per_rice_len i cap chan st =
     do {
       rice_len \<leftarrow> encode_rice_len fmt samples def i cap chan;
       (output1, cur1) \<leftarrow> put_number (fst st) (snd st) (u8 bits_per_rice_len) (int rice_len);
       encode_samples fmt samples def i cap chan rice_len 0 0 (output1, cur1)
     }"

function encode_channels ::
  "sample_fmt \<Rightarrow> int list \<Rightarrow> btw_def \<Rightarrow> nat \<Rightarrow> nat \<Rightarrow> nat \<Rightarrow> nat \<Rightarrow>
   byte list \<times> cursor \<Rightarrow> (byte list \<times> cursor) option" where
  "encode_channels fmt samples def bits_per_rice_len i cap chan st =
     (if chan < unat (channels def) then
        do {
          st' \<leftarrow> encode_channel fmt samples def bits_per_rice_len i cap chan st;
          encode_channels fmt samples def bits_per_rice_len i cap (chan + 1) st'
        }
      else Some st)"
  by pat_completeness auto
termination
  by (relation "measure (\<lambda>(fmt, samples, def, b, i, cap, chan, st). unat (channels def) - chan)")
    auto

declare encode_channels.simps [simp del]

text \<open>\<^verbatim>\<open>while (i < def->sample_count)\<close> of \<^verbatim>\<open>btw_encode\<close>. Nothing happens between the
  last channel of a block and the first channel of the next.\<close>

function encode_blocks ::
  "sample_fmt \<Rightarrow> int list \<Rightarrow> btw_def \<Rightarrow> nat \<Rightarrow> nat \<Rightarrow>
   byte list \<times> cursor \<Rightarrow> (byte list \<times> cursor) option" where
  "encode_blocks fmt samples def bits_per_rice_len i st =
     (if i < unat (sample_count def) then
        do {
          let cap = block_cap def i;
          st' \<leftarrow> encode_channels fmt samples def bits_per_rice_len i cap 0 st;
          encode_blocks fmt samples def bits_per_rice_len (i + cap) st'
        }
      else Some st)"
  by pat_completeness auto
termination
  by (relation "measure (\<lambda>(fmt, samples, def, b, i, st). unat (sample_count def) - i)")
    (auto simp: block_cap_def BTW_BLOCK_SIZE_def)

declare encode_blocks.simps [simp del]

text \<open>The five header fields, lines 250 to 256 of \<^verbatim>\<open>btw_encode\<close>.\<close>

definition encode_header :: "byte list \<Rightarrow> btw_def \<Rightarrow> (byte list \<times> cursor) option" where
  "encode_header output def =
     do {
       (output1, cur1) \<leftarrow> put_number output (0, 0) 32 BTW_MAGIC;
       (output2, cur2) \<leftarrow> put_number output1 cur1 64 (sint (sample_count def));
       (output3, cur3) \<leftarrow> put_number output2 cur2 16 (uint (channels def));
       (output4, cur4) \<leftarrow> put_number output3 cur3 16 (uint (bits_per_sample def));
       put_number output4 cur4 32 (sint (sample_rate def))
     }"

text \<open>The size given to \<^verbatim>\<open>calloc\<close>, computed in \<^verbatim>\<open>unsigned long long\<close>.\<close>

definition max_len :: "btw_def \<Rightarrow> nat" where
  "max_len def =
     unat ((ucast (channels def) * sample_count def * ucast (bits_per_sample def)) div 8
           + (1024 :: 64 word))"

text \<open>\<^verbatim>\<open>btw_encode\<close>. The arguments are pointers: \<open>None\<close> is the null pointer, and
  \<open>out_len\<close> holds what the caller's variable contains before the call. The first
  statement stores through \<open>out_len\<close>, before the test for null. The allocation is taken
  to succeed. The result is the buffer and the value left in \<^verbatim>\<open>*out_len\<close>.\<close>

definition btw_encode ::
  "sample_fmt \<Rightarrow> int list option \<Rightarrow> btw_def option \<Rightarrow> nat option \<Rightarrow>
   (byte list \<times> nat) outcome" where
  "btw_encode fmt samples def out_len =
     (if out_len = None then Undefined
      else case (samples, def) of
        (Some samples, Some def) \<Rightarrow>
          if channels def = 0 \<or> sample_rate def = 0 \<or> sample_count def = 0
             \<or> bits_per_sample def = 0 then Exit_Failure
          else
            (case do {
                    bits_per_rice_len \<leftarrow> bits_required (uint (bits_per_sample def));
                    let output = replicate (max_len def) 0;
                    (output1, metadata_cur) \<leftarrow> encode_header output def;
                    (output2, cur2) \<leftarrow> encode_blocks fmt samples def bits_per_rice_len 0
                                        (output1, (fst metadata_cur, 0));
                    Some (output2, (if snd cur2 \<noteq> 0 then fst cur2 + 1 else fst cur2))
                  } of
               None \<Rightarrow> Undefined
             | Some r \<Rightarrow> Returned r)
      | _ \<Rightarrow> Exit_Failure)"

subsection \<open>The decoder\<close>

definition byte_at :: "byte list \<Rightarrow> nat \<Rightarrow> byte option" where
  "byte_at data k = (if k < length data then Some (data ! k) else None)"

text \<open>\<^verbatim>\<open>btw_read_metadata\<close>: the struct after the call. The comparison with the magic
  stops at the first byte that differs.\<close>

definition btw_read_metadata :: "byte list option \<Rightarrow> btw_def option \<Rightarrow> btw_def option option"
  where
  "btw_read_metadata data def =
     (case (def, data) of
        (Some d, Some data) \<Rightarrow>
          do {
            b0 \<leftarrow> byte_at data 0;
            if b0 \<noteq> 98 then Some def else
            do {
              b1 \<leftarrow> byte_at data 1;
              if b1 \<noteq> 116 then Some def else
              do {
                b2 \<leftarrow> byte_at data 2;
                if b2 \<noteq> 119 then Some def else
                do {
                  b3 \<leftarrow> byte_at data 3;
                  if b3 \<noteq> 102 then Some def else
                  do {
                    (n1, cur1) \<leftarrow> grab_number data (4, 0) 64;
                    (n2, cur2) \<leftarrow> grab_number data cur1 16;
                    (n3, cur3) \<leftarrow> grab_number data cur2 16;
                    (n4, cur4) \<leftarrow> grab_number data cur3 32;
                    Some (Some (d\<lparr>sample_count := word_of_int n1, channels := word_of_int n2,
                                  bits_per_sample := word_of_int n3,
                                  sample_rate := word_of_int n4\<rparr>))
                  }
                }
              }
            }
          }
      | _ \<Rightarrow> Some def)"

text \<open>\<^verbatim>\<open>while (grab_bit(data, &in_pos, &bit_pos)) diff += 1 << rice_len;\<close>\<close>

function decode_unary :: "byte list \<Rightarrow> cursor \<Rightarrow> nat \<Rightarrow> int \<Rightarrow> (int \<times> cursor) option" where
  "decode_unary data cur rice_len diff =
     (case grab_bit data cur of
        None \<Rightarrow> None
      | Some (b, cur') \<Rightarrow>
          if b \<noteq> 0 then decode_unary data cur' rice_len (s64 (diff + shl_int 1 rice_len))
          else Some (diff, cur'))"
  by pat_completeness auto
termination
proof (relation "measure (\<lambda>(data, cur, r, d). (length data - fst cur) * 8 + (7 - snd cur mod 8))",
    goal_cases)
  case 1
  show ?case by simp
next
  case (2 data cur rice_len diff x2 b cur')
  obtain p bp where cur: "cur = (p, bp)"
    by (cases cur)
  from 2 have lt: "p < length data"
    and c': "cur' = (p + (if (bp + 1) mod 8 = 0 then 1 else 0), (bp + 1) mod 8)"
    by (auto simp: grab_bit_def cur Let_def split: if_splits)
  have step: "Suc bp mod 8 = (if Suc (bp mod 8) = 8 then 0 else Suc (bp mod 8))"
    by (rule mod_Suc)
  have small: "bp mod 8 < 8"
    by simp
  show ?case
  proof (cases "Suc (bp mod 8) = 8")
    case True
    moreover from lt have "(length data - Suc p) * 8 + 7 < (length data - p) * 8"
      by arith
    ultimately show ?thesis
      by (simp add: cur c' step)
  next
    case False
    with small have "Suc (bp mod 8) < 8"
      by linarith
    with False show ?thesis
      by (simp add: cur c' step)
  qed
qed

declare decode_unary.simps [simp del]

text \<open>The decoder's variables that the loops update: the output buffer (\<open>None\<close> is an
  element that \<^verbatim>\<open>malloc\<close> returned and nothing has assigned), \<^verbatim>\<open>*out_len\<close> and the
  input cursor.\<close>

type_synonym dec_state = "int option list \<times> nat \<times> cursor"

text \<open>\<^verbatim>\<open>for (j = 0; j < cap; j++)\<close> of \<^verbatim>\<open>btw_decode\<close>.\<close>

function decode_samples ::
  "sample_fmt \<Rightarrow> byte list \<Rightarrow> btw_def \<Rightarrow> nat \<Rightarrow> nat \<Rightarrow> nat \<Rightarrow> nat \<Rightarrow> nat \<Rightarrow> int \<Rightarrow>
   dec_state \<Rightarrow> dec_state option" where
  "decode_samples fmt data def i cap chan rice_len j prev_sample st =
     (if j < cap then
        (case st of (output, out_len, cur) \<Rightarrow>
           do {
             (sign, cur1) \<leftarrow> grab_bit data cur;
             (diff, cur2) \<leftarrow> decode_unary data cur1 rice_len 0;
             (r, cur3) \<leftarrow> grab_number data cur2 rice_len;
             let diff = diff OR r;
             let diff = (if sign \<noteq> 0 then s64 (diff * - 1) else diff);
             let idx = sample_index def (i + j) chan;
             if idx < length output then
               do {
                 let v = fmt_value fmt (s64 (prev_sample + diff));
                 decode_samples fmt data def i cap chan rice_len (j + 1) v
                   (output[idx := Some v], u64 (out_len + 1), cur3)
               }
             else None
           })
      else Some st)"
  by pat_completeness auto
termination
  by (relation "measure (\<lambda>(fmt, data, def, i, cap, chan, r, j, p, st). cap - j)") auto

declare decode_samples.simps [simp del]

text \<open>\<^verbatim>\<open>for (chan = 0; chan < def->channels; chan++)\<close> of \<^verbatim>\<open>btw_decode\<close>.\<close>

function decode_channels ::
  "sample_fmt \<Rightarrow> byte list \<Rightarrow> btw_def \<Rightarrow> nat \<Rightarrow> nat \<Rightarrow> nat \<Rightarrow> nat \<Rightarrow>
   dec_state \<Rightarrow> dec_state option" where
  "decode_channels fmt data def bits_per_rice_len i cap chan st =
     (if chan < unat (channels def) then
        (case st of (output, out_len, cur) \<Rightarrow>
           do {
             (rice_len, cur1) \<leftarrow> grab_number data cur bits_per_rice_len;
             st' \<leftarrow> decode_samples fmt data def i cap chan (nat (signed_take_bit 31 rice_len))
                     0 0 (output, out_len, cur1);
             decode_channels fmt data def bits_per_rice_len i cap (chan + 1) st'
           })
      else Some st)"
  by pat_completeness auto
termination
  by (relation "measure (\<lambda>(fmt, data, def, b, i, cap, chan, st). unat (channels def) - chan)")
    auto

declare decode_channels.simps [simp del]

text \<open>The end of the body of \<^verbatim>\<open>while (i < def->sample_count)\<close> of \<^verbatim>\<open>btw_decode\<close>:
  \<^verbatim>\<open>in_pos += (bit_pos != 0); bit_pos = 0;\<close>\<close>

definition decode_align :: "dec_state \<Rightarrow> dec_state" where
  "decode_align st =
     (case st of (output, out_len, (in_pos, bit_pos)) \<Rightarrow>
        (output, out_len, (in_pos + (if bit_pos \<noteq> 0 then 1 else 0), 0)))"

text \<open>One pass through the body of \<^verbatim>\<open>while (i < def->sample_count)\<close>.\<close>

definition decode_block ::
  "sample_fmt \<Rightarrow> byte list \<Rightarrow> btw_def \<Rightarrow> nat \<Rightarrow> nat \<Rightarrow> dec_state \<Rightarrow> dec_state option" where
  "decode_block fmt data def bits_per_rice_len i st =
     do {
       st' \<leftarrow> decode_channels fmt data def bits_per_rice_len i (block_cap def i) 0 st;
       Some (decode_align st')
     }"

function decode_blocks ::
  "sample_fmt \<Rightarrow> byte list \<Rightarrow> btw_def \<Rightarrow> nat \<Rightarrow> nat \<Rightarrow> dec_state \<Rightarrow> dec_state option" where
  "decode_blocks fmt data def bits_per_rice_len i st =
     (if i < unat (sample_count def) then
        do {
          st' \<leftarrow> decode_block fmt data def bits_per_rice_len i st;
          decode_blocks fmt data def bits_per_rice_len (i + block_cap def i) st'
        }
      else Some st)"
  by pat_completeness auto
termination
  by (relation "measure (\<lambda>(fmt, data, def, b, i, st). unat (sample_count def) - i)")
    (auto simp: block_cap_def BTW_BLOCK_SIZE_def)

declare decode_blocks.simps [simp del]

text \<open>The number of elements in the buffer that \<^verbatim>\<open>malloc\<close> returns: the byte count is
  computed in \<^verbatim>\<open>unsigned long long\<close>.\<close>

definition decode_alloc :: "sample_fmt \<Rightarrow> btw_def \<Rightarrow> nat" where
  "decode_alloc fmt def =
     u64 (unat (sample_count def) * unat (channels def) * fmt_size fmt) div fmt_size fmt"

text \<open>\<^verbatim>\<open>btw_decode\<close>. The result is the struct after the call and, unless the call
  returned the null pointer, the output buffer with the value left in \<^verbatim>\<open>*out_len\<close>.\<close>

definition btw_decode ::
  "sample_fmt \<Rightarrow> byte list option \<Rightarrow> btw_def option \<Rightarrow> nat option \<Rightarrow>
   (btw_def option \<times> (int option list \<times> nat) option) outcome" where
  "btw_decode fmt data def out_len =
     (case (def, out_len, data) of
        (Some d0, Some n0, Some bytes) \<Rightarrow>
          (case btw_read_metadata data def of
             Some (Some d) \<Rightarrow>
               if channels d = 0 \<or> sample_rate d = 0 \<or> sample_count d = 0
                  \<or> bits_per_sample d = 0 then Returned (Some d, None)
               else
                 (case do {
                         let output = replicate (decode_alloc fmt d) None;
                         bits_per_rice_len \<leftarrow> bits_required (uint (bits_per_sample d));
                         decode_blocks fmt bytes d bits_per_rice_len 0 (output, 0, (20, 0))
                       } of
                    None \<Rightarrow> Undefined
                  | Some (output, n, cur) \<Rightarrow> Returned (Some d, Some (output, n)))
           | _ \<Rightarrow> Undefined)
      | _ \<Rightarrow> Returned (def, None))"

subsection \<open>Encoding and decoding again\<close>

text \<open>The encoded stream: the first \<^verbatim>\<open>*out_len\<close> bytes of the buffer that \<^verbatim>\<open>btw_encode\<close>
  returns.\<close>

definition encoded_stream :: "sample_fmt \<Rightarrow> int list \<Rightarrow> btw_def \<Rightarrow> byte list outcome" where
  "encoded_stream fmt samples def =
     (case btw_encode fmt (Some samples) (Some def) (Some 0) of
        Returned (output, n) \<Rightarrow> Returned (take n output)
      | Exit_Failure \<Rightarrow> Exit_Failure
      | Undefined \<Rightarrow> Undefined)"

text \<open>A struct whose four fields are zero, as a caller hands it to the decoder.\<close>

definition zero_def :: btw_def where
  "zero_def = \<lparr>channels = 0, bits_per_sample = 0, sample_rate = 0, sample_count = 0\<rparr>"

subsection \<open>The stream as the specification describes it\<close>

text \<open>
  The sample of a block by its position, its difference to the sample before it (0 before
  the first sample of the block), the Rice parameter as the bit length of the sum of the
  absolute differences divided by 512, and the lengths in bits of a codeword (sign bit,
  unary quotient, terminator, remainder), of a block record and of all the records from
  frame \<open>i\<close> on. A position in bits is \<open>bitpos\<close>; \<open>advance\<close> moves a cursor by a number
  of bits.
\<close>

definition block_sample :: "sample_fmt \<Rightarrow> int list \<Rightarrow> btw_def \<Rightarrow> nat \<Rightarrow> nat \<Rightarrow> nat \<Rightarrow> int" where
  "block_sample fmt samples def i chan l =
     fmt_value fmt (samples ! sample_index def (i + l) chan)"

definition block_diff :: "sample_fmt \<Rightarrow> int list \<Rightarrow> btw_def \<Rightarrow> nat \<Rightarrow> nat \<Rightarrow> nat \<Rightarrow> int" where
  "block_diff fmt samples def i chan l =
     block_sample fmt samples def i chan l
     - (if l = 0 then 0 else block_sample fmt samples def i chan (l - 1))"

definition abs_diff_sum :: "sample_fmt \<Rightarrow> int list \<Rightarrow> btw_def \<Rightarrow> nat \<Rightarrow> nat \<Rightarrow> nat \<Rightarrow> int" where
  "abs_diff_sum fmt samples def i cap chan = (\<Sum>l<cap. \<bar>block_diff fmt samples def i chan l\<bar>)"

definition block_rice_len :: "sample_fmt \<Rightarrow> int list \<Rightarrow> btw_def \<Rightarrow> nat \<Rightarrow> nat \<Rightarrow> nat \<Rightarrow> nat" where
  "block_rice_len fmt samples def i cap chan =
     floorlog 2 (nat (abs_diff_sum fmt samples def i cap chan div 512)) - 1"

definition bitpos :: "cursor \<Rightarrow> nat" where
  "bitpos cur = 8 * fst cur + snd cur"

definition advance :: "cursor \<Rightarrow> nat \<Rightarrow> cursor" where
  "advance cur n = ((bitpos cur + n) div 8, (bitpos cur + n) mod 8)"

definition codeword_bits :: "nat \<Rightarrow> int \<Rightarrow> nat" where
  "codeword_bits rice_len d = 1 + nat (drop_bit rice_len \<bar>d\<bar>) + 1 + rice_len"

definition record_bits ::
  "sample_fmt \<Rightarrow> int list \<Rightarrow> btw_def \<Rightarrow> nat \<Rightarrow> nat \<Rightarrow> nat \<Rightarrow> nat \<Rightarrow> nat" where
  "record_bits fmt samples def bits_per_rice_len i cap chan =
     bits_per_rice_len
     + (\<Sum>l<cap. codeword_bits (block_rice_len fmt samples def i cap chan)
                   (block_diff fmt samples def i chan l))"

function stream_bits :: "sample_fmt \<Rightarrow> int list \<Rightarrow> btw_def \<Rightarrow> nat \<Rightarrow> nat \<Rightarrow> nat" where
  "stream_bits fmt samples def bits_per_rice_len i =
     (if i < unat (sample_count def) then
        (\<Sum>chan<unat (channels def).
            record_bits fmt samples def bits_per_rice_len i (block_cap def i) chan)
        + stream_bits fmt samples def bits_per_rice_len (i + block_cap def i)
      else 0)"
  by pat_completeness auto
termination
  by (relation "measure (\<lambda>(fmt, samples, def, b, i). unat (sample_count def) - i)")
    (auto simp: block_cap_def BTW_BLOCK_SIZE_def)

declare stream_bits.simps [simp del]

definition bits_per_rice_len :: "btw_def \<Rightarrow> nat" where
  "bits_per_rice_len def = floorlog 2 (unat (bits_per_sample def)) - 1"

subsection \<open>Example inputs\<close>

text \<open>Three 24-bit samples at the two ends of the 24-bit range, one channel.\<close>

definition def_24 :: btw_def where
  "def_24 = \<lparr>channels = 1, bits_per_sample = 24, sample_rate = 44100, sample_count = 3\<rparr>"

definition samples_24 :: "int list" where
  "samples_24 = [8388607, - 8388608, 8388607]"

definition stream_24 :: "byte list" where
  "stream_24 =
     [98, 116, 119, 102, 3, 0, 0, 0, 0, 0, 0, 0, 1, 0, 24, 0, 68, 172, 0, 0,
      224, 255, 255, 255, 255, 255, 255, 255, 255, 255, 255, 255, 255, 255,
      255, 255, 239, 255, 255, 255, 255, 255, 255, 255, 255, 255, 255, 255,
      255, 255, 255, 255, 255, 255, 255, 255, 255, 255, 255, 255, 255, 255,
      255, 255, 255, 255, 255, 255, 255, 255, 223, 255, 191, 255, 255, 255,
      255, 255, 255, 255, 255, 255, 255, 255, 255, 255, 255, 255, 255, 255,
      255, 255, 255, 255, 255, 255, 255, 255, 255, 255, 255, 255, 255, 255,
      191, 255, 127]"

text \<open>One sample, one channel, 16 bits; the stream that the encoder makes of the sample 5.\<close>

definition def_short :: btw_def where
  "def_short = \<lparr>channels = 1, bits_per_sample = 16, sample_rate = 44100, sample_count = 1\<rparr>"

definition stream_short :: "byte list" where
  "stream_short =
     [98, 116, 119, 102, 1, 0, 0, 0, 0, 0, 0, 0, 1, 0, 16, 0, 68, 172, 0, 0, 224, 3]"

text \<open>Eight channels of one 16-bit sample each.\<close>

definition def_8ch :: btw_def where
  "def_8ch = \<lparr>channels = 8, bits_per_sample = 16, sample_rate = 44100, sample_count = 1\<rparr>"

text \<open>515 frames of one channel, 16 bits: a block of 512 frames and a block of three. The
  bytes are a header for these parameters followed by 131 zero bytes.\<close>

definition def_515 :: btw_def where
  "def_515 = \<lparr>channels = 1, bits_per_sample = 16, sample_rate = 44100, sample_count = 515\<rparr>"

definition zeros_515 :: "byte list" where
  "zeros_515 =
     [98, 116, 119, 102, 3, 2, 0, 0, 0, 0, 0, 0, 1, 0, 16, 0, 68, 172, 0, 0] @ replicate 131 0"

text \<open>513 frames of one channel, 16 bits: 512 samples 0 and the sample 1, the 20 bytes of
  the header and the stream that the encoder makes of them.\<close>

definition def_513 :: btw_def where
  "def_513 = \<lparr>channels = 1, bits_per_sample = 16, sample_rate = 44100, sample_count = 513\<rparr>"

definition samples_513 :: "int list" where
  "samples_513 = replicate 512 0 @ [1]"

definition header_513 :: "byte list" where
  "header_513 = [98, 116, 119, 102, 1, 2, 0, 0, 0, 0, 0, 0, 1, 0, 16, 0, 68, 172, 0, 0]"

definition stream_513 :: "byte list" where
  "stream_513 = header_513 @ replicate 129 0 @ [2]"

text \<open>A recording of 2147483648 frames and the header that the encoder writes for it.\<close>

definition def_long :: btw_def where
  "def_long = \<lparr>channels = 1, bits_per_sample = 16, sample_rate = 44100, sample_count = 2147483648\<rparr>"

definition header_long :: "byte list" where
  "header_long = [98, 116, 119, 102, 0, 0, 0, 128, 0, 0, 0, 0, 1, 0, 16, 0, 68, 172, 0, 0]"

section \<open>Properties\<close>

subsection \<open>Evaluation\<close>

text \<open>Rules that let the simplifier run the codec on concrete inputs, one call at a time:
  the second argument of a bind and the body of a let are left alone until the first is a
  value.\<close>

lemma bind_weak_cong: "m = m' \<Longrightarrow> Option.bind m f = Option.bind m' f"
  by simp

lemma list_update_Cons_numeral:
  "(x # xs)[numeral k := v] = x # xs[pred_numeral k := v]"
  by (simp add: numeral_eq_Suc)

lemma take_eq_map_nth: "n \<le> length xs \<Longrightarrow> take n xs = map (\<lambda>i. xs ! i) [0..<n]"
  by (simp add: list_eq_iff_nth_eq)

lemmas codec_eval =
  btw_encode_def btw_decode_def btw_read_metadata_def byte_at_def encode_header_def
  encode_blocks.simps encode_channels.simps encode_channel_def encode_samples.simps
  encode_rice_len_def encode_av_diff.simps decode_blocks.simps decode_block_def
  decode_align_def decode_channels.simps decode_samples.simps decode_unary.simps
  decode_alloc_def max_len_def block_cap_def sample_at_def sample_index_def put_bit_def
  put_number_def put_number_loop.simps put_ones_def put_ones_loop.simps grab_bit_def
  grab_number_def grab_number_loop.simps bits_required_def bits_required_loop.simps
  BTW_abs_def BTW_MAGIC_def BTW_BLOCK_SIZE_def s64_def u64_def u32_def u8_def fmt_value_def
  fmt_size_def shl_int_def c_div_def encoded_stream_def zero_def_def Let_def
  list_update_Cons_numeral

subsection \<open>The bit length\<close>

lemma bits_required_loop_nonneg:
  "0 \<le> n \<Longrightarrow> r < 256 \<Longrightarrow>
   bits_required_loop n r = Some ((r + (floorlog 2 (nat n) - 1)) mod 256)"
proof (induction "nat n" arbitrary: n r rule: less_induct)
  case less
  show ?case
  proof (cases "n div 2 = 0")
    case True
    with less.prems have "n = 0 \<or> n = 1"
      by auto
    then have "floorlog 2 (nat n) - 1 = 0"
      by (auto simp: compute_floorlog)
    with True less.prems show ?thesis
      by (subst bits_required_loop.simps) (simp add: drop_bit_eq_div)
  next
    case False
    with less.prems have pos: "0 < n div 2" and n2: "2 \<le> n"
      by auto
    have fl: "floorlog 2 (nat n) = floorlog 2 (nat (n div 2)) + 1"
      using n2 by (subst compute_floorlog) (simp add: nat_div_distrib)
    have fl': "0 < floorlog 2 (nat (n div 2))"
      using pos by (subst compute_floorlog) simp
    have "bits_required_loop (n div 2) ((r + 1) mod 256) =
          Some (((r + 1) mod 256 + (floorlog 2 (nat (n div 2)) - 1)) mod 256)"
      using pos n2 by (intro less.hyps) auto
    also have "((r + 1) mod 256 + (floorlog 2 (nat (n div 2)) - 1)) mod 256 =
               (r + (floorlog 2 (nat n) - 1)) mod 256"
    proof -
      from fl' obtain k where k: "floorlog 2 (nat (n div 2)) = Suc k"
        by (cases "floorlog 2 (nat (n div 2))") auto
      have "((r + 1) mod 256 + k) mod 256 = (r + 1 + k) mod 256"
        by (rule mod_add_left_eq)
      then show ?thesis
        by (simp add: fl k)
    qed
    finally show ?thesis
      using False by (subst bits_required_loop.simps) (simp add: drop_bit_eq_div)
  qed
qed

lemma floorlog_2_bound: "n < 2 ^ k \<Longrightarrow> floorlog 2 n \<le> k"
  by (simp add: floorlog_le_iff)

lemma bits_required_nonneg:
  assumes "0 \<le> n" "n < 2 ^ 63"
  shows "bits_required n = Some (floorlog 2 (nat n) - 1)"
proof -
  from assms have "nat n < 2 ^ 63"
    by (simp add: nat_less_iff)
  then have "floorlog 2 (nat n) \<le> 63"
    by (rule floorlog_2_bound)
  then show ?thesis
    using assms by (simp add: bits_required_def bits_required_loop_nonneg)
qed

lemma floorlog_bounds_pred:
  assumes "0 < n"
  shows "2 ^ (floorlog 2 n - 1) \<le> n" "n < 2 ^ (floorlog 2 n - 1 + 1)"
proof -
  from assms have "0 < floorlog 2 n"
    by (simp add: floorlog_def)
  with floorlog_bounds [of n 2] assms show "2 ^ (floorlog 2 n - 1) \<le> n" "n < 2 ^ (floorlog 2 n - 1 + 1)"
    by auto
qed

text \<open>
  Claim C5. On a non-negative \<^verbatim>\<open>long long\<close> the function \<^verbatim>\<open>bits_required\<close> returns the
  zero-based index of the highest set bit: 0 for \<open>n \<le> 1\<close>, and \<open>\<lfloor>log\<^sub>2 n\<rfloor>\<close> for \<open>n \<ge> 1\<close>,
  that is the \<open>r\<close> with \<open>2\<^sup>r \<le> n < 2\<^sup>r\<^sup>+\<^sup>1\<close>. Its values at 0, 1, 2, 3, 4 are 0, 0, 1, 1, 2.
\<close>

theorem bits_required_floor_log2:
  assumes "0 \<le> n" "n < 2 ^ 63"
  shows "\<exists>r. bits_required n = Some r
           \<and> (n \<le> 1 \<longrightarrow> r = 0)
           \<and> (1 \<le> n \<longrightarrow> r = nat \<lfloor>log 2 (real_of_int n)\<rfloor> \<and> 2 ^ r \<le> n \<and> n < 2 ^ (r + 1))
           \<and> bits_required 0 = Some 0 \<and> bits_required 1 = Some 0 \<and> bits_required 2 = Some 1
           \<and> bits_required 3 = Some 1 \<and> bits_required 4 = Some 2"
proof -
  let ?r = "floorlog 2 (nat n) - 1"
  have r: "bits_required n = Some ?r"
    using assms by (rule bits_required_nonneg)
  have small: "n \<le> 1 \<longrightarrow> ?r = 0"
    using assms by (auto simp: floorlog_def le_less)
  have big: "1 \<le> n \<longrightarrow> ?r = nat \<lfloor>log 2 (real_of_int n)\<rfloor> \<and> 2 ^ ?r \<le> n \<and> n < 2 ^ (?r + 1)"
  proof
    assume n1: "1 \<le> n"
    then have pos: "0 < nat n"
      by simp
    have "?r = nat \<lfloor>log 2 (real_of_int n)\<rfloor>"
      using n1 by (simp add: floorlog_def)
    moreover have "2 ^ ?r \<le> n"
      using floorlog_bounds_pred(1) [OF pos] n1 by (simp add: le_nat_iff nat_le_iff of_nat_le_iff flip: of_nat_power)
    moreover have "n < 2 ^ (?r + 1)"
      using floorlog_bounds_pred(2) [OF pos] n1 by (simp add: nat_less_iff)
    ultimately show "?r = nat \<lfloor>log 2 (real_of_int n)\<rfloor> \<and> 2 ^ ?r \<le> n \<and> n < 2 ^ (?r + 1)"
      by simp
  qed
  have vals: "bits_required 0 = Some 0" "bits_required 1 = Some 0" "bits_required 2 = Some 1"
    "bits_required 3 = Some 1" "bits_required 4 = Some 2"
    by (simp_all add: bits_required_def bits_required_loop.simps drop_bit_eq_div)
  from r small big vals show ?thesis
    by blast
qed

theorem bits_required_floor_log2_witness:
  "\<exists>r. bits_required 1000 = Some r \<and> r = nat \<lfloor>log 2 1000\<rfloor> \<and> (2::int) ^ r \<le> 1000 \<and> (1000::int) < 2 ^ (r + 1)"
  using bits_required_floor_log2 [of 1000] by simp

subsection \<open>The guard of the encoder\<close>

lemma btw_encode_exit_failure:
  assumes "out_len \<noteq> None"
    and "samples = None \<or> def = None
         \<or> (\<exists>d. def = Some d \<and> (channels d = 0 \<or> bits_per_sample d = 0
                                   \<or> sample_rate d = 0 \<or> sample_count d = 0))"
  shows "btw_encode fmt samples def out_len = Exit_Failure"
  using assms by (auto simp: btw_encode_def split: option.splits)

text \<open>
  Claim C8, at a call where the code leaves it: the channel count is zero and the third
  argument is the null pointer. The first statement of \<^verbatim>\<open>btw_encode\<close>, \<^verbatim>\<open>*out_len = 0\<close>,
  comes before the guard that tests \<^verbatim>\<open>!out_len\<close>, so the call stores through the null
  pointer and never reaches \<^verbatim>\<open>exit(EXIT_FAILURE)\<close>. The same call with a third argument
  that points somewhere ends in \<^verbatim>\<open>exit(EXIT_FAILURE)\<close>.
\<close>

theorem btw_encode_null_out_len:
  "btw_encode BTW_S16 (Some [0, 0])
     (Some \<lparr>channels = 0, bits_per_sample = 16, sample_rate = 44100, sample_count = 2\<rparr>) None
   = Undefined
   \<and> btw_encode BTW_S16 (Some [0, 0])
     (Some \<lparr>channels = 0, bits_per_sample = 16, sample_rate = 44100, sample_count = 2\<rparr>) (Some 0)
   = Exit_Failure"
  by (simp add: btw_encode_def)

subsection \<open>The fixed-width integer of the bit cursor\<close>

text \<open>
  Claim C7, at the input where the code leaves it. The buffer is eight zero bytes, the
  cursor is at byte 0, bit 0, the width is 32 and the value is \<open>2\<^sup>3\<^sup>1\<close>. \<^verbatim>\<open>put_number\<close>
  writes the bytes 0, 0, 0, 128. \<^verbatim>\<open>grab_number\<close> shifts the promoted byte 128 by 24 in
  \<^verbatim>\<open>int\<close> and returns \<open>- 2\<^sup>3\<^sup>1\<close>, not the value written; both cursors are at byte 4.
\<close>

theorem grab_number_int_shift:
  "put_number [0, 0, 0, 0, 0, 0, 0, 0] (0, 0) 32 2147483648
     = Some ([0, 0, 0, 128, 0, 0, 0, 0], (4, 0))
   \<and> grab_number [0, 0, 0, 128, 0, 0, 0, 0] (0, 0) 32 = Some (- 2147483648, (4, 0))"
  by (simp add: codec_eval cong: bind_weak_cong let_weak_cong)

subsection \<open>A single block\<close>

lemma encoded_stream_24: "encoded_stream BTW_S32 samples_24 def_24 = Returned stream_24"
  unfolding samples_24_def def_24_def stream_24_def
  by (simp add: codec_eval take_eq_map_nth cong: bind_weak_cong let_weak_cong)

lemma btw_decode_stream_24:
  "btw_decode BTW_S32 (Some stream_24) (Some zero_def) (Some 0)
   = Returned (Some def_24, Some ([Some 127, Some (- 144), Some (- 159)], 3))"
  unfolding def_24_def stream_24_def
  apply (simp add: codec_eval cong: bind_weak_cong let_weak_cong)
  apply (simp add: numeral_eq_Suc)
  done

text \<open>
  Claim C3, at an input where the code leaves it: one channel, 24 bits per sample, three
  samples 8388607, -8388608, 8388607 (a single block). The encoder finds the Rice
  parameter 16 and writes it in \<^verbatim>\<open>bits_required(24)\<close> = 4 bits, which hold 0. The decoder
  reads the parameter 0 and returns the samples 127, -144, -159.
\<close>

theorem single_block_24_bit:
  "encoded_stream BTW_S32 samples_24 def_24 = Returned stream_24
   \<and> btw_decode BTW_S32 (Some stream_24) (Some zero_def) (Some 0)
       = Returned (Some def_24, Some ([Some 127, Some (- 144), Some (- 159)], 3))
   \<and> encode_rice_len BTW_S32 samples_24 def_24 0 3 0 = Some 16
   \<and> bits_required (uint (bits_per_sample def_24)) = Some 4"
  using encoded_stream_24 btw_decode_stream_24
  by (simp add: samples_24_def def_24_def codec_eval cong: bind_weak_cong let_weak_cong)

subsection \<open>The Rice parameter and the bit cursor\<close>

lemma fmt_value_range: "- (2 ^ 31) \<le> fmt_value fmt x \<and> fmt_value fmt x < 2 ^ 31"
proof (cases fmt)
  case BTW_U8
  have "- (2 ^ 31) \<le> take_bit 8 x"
    by (rule order_trans [where y = 0]) simp_all
  moreover have "take_bit 8 x < 2 ^ 31"
    by (rule less_trans [OF take_bit_int_less_exp]) simp
  ultimately show ?thesis
    by (simp add: fmt_value_def BTW_U8)
next
  case BTW_S16
  have "- (2 ^ 15) \<le> signed_take_bit 15 x" "signed_take_bit 15 x < 2 ^ 15"
    by (rule signed_take_bit_int_greater_eq_minus_exp signed_take_bit_int_less_exp)+
  then show ?thesis
    by (simp add: fmt_value_def BTW_S16)
next
  case BTW_S32
  have "- (2 ^ 31) \<le> signed_take_bit 31 x" "signed_take_bit 31 x < 2 ^ 31"
    by (rule signed_take_bit_int_greater_eq_minus_exp signed_take_bit_int_less_exp)+
  then show ?thesis
    by (simp add: fmt_value_def BTW_S32)
qed

lemma s64_id: "- (2 ^ 63) \<le> x \<Longrightarrow> x < 2 ^ 63 \<Longrightarrow> s64 x = x"
  by (simp add: s64_def signed_take_bit_int_eq_self)

lemma block_sample_range:
  "- (2 ^ 31) \<le> block_sample fmt samples def i chan l"
  "block_sample fmt samples def i chan l < 2 ^ 31"
  using fmt_value_range [of fmt] by (simp_all add: block_sample_def)

lemma block_diff_range: "\<bar>block_diff fmt samples def i chan l\<bar> < 2 ^ 32"
  using block_sample_range [of fmt samples "def" i chan l]
    block_sample_range [of fmt samples "def" i chan "l - 1"]
  by (auto simp: block_diff_def)

lemma encode_av_diff_eq:
  assumes "l \<le> cap" "cap \<le> 512" "0 \<le> av" "av \<le> int l * 2 ^ 32"
    and "prev = (if l = 0 then 0 else block_sample fmt samples def i chan (l - 1))"
  shows "encode_av_diff fmt samples def i cap chan l prev av =
           (if \<forall>k. l \<le> k \<and> k < cap \<longrightarrow> sample_index def (i + k) chan < length samples
            then Some (av + (\<Sum>k = l..<cap. \<bar>block_diff fmt samples def i chan k\<bar>))
            else None)"
  using assms
proof (induction "cap - l" arbitrary: l prev av)
  case 0
  then have "l = cap"
    by simp
  then show ?case
    by (subst encode_av_diff.simps) simp
next
  case (Suc n)
  then have lt: "l < cap"
    by simp
  show ?case
  proof (cases "sample_index def (i + l) chan < length samples")
    case False
    with lt show ?thesis
      by (subst encode_av_diff.simps) (auto simp: sample_at_def)
  next
    case True
    let ?x = "block_sample fmt samples def i chan l"
    have diff: "?x - prev = block_diff fmt samples def i chan l"
      by (simp add: block_diff_def Suc.prems(5))
    have bound: "\<bar>block_diff fmt samples def i chan l\<bar> < 2 ^ 32"
      by (rule block_diff_range)
    have s1: "s64 (?x - prev) = block_diff fmt samples def i chan l"
      using bound by (simp add: diff s64_id)
    have abs1: "BTW_abs (block_diff fmt samples def i chan l) = \<bar>block_diff fmt samples def i chan l\<bar>"
      using bound by (simp add: BTW_abs_def s64_id)
    have lcap: "int l < 512"
      using lt Suc.prems(2) by simp
    have av': "av + \<bar>block_diff fmt samples def i chan l\<bar> \<le> int (l + 1) * 2 ^ 32"
      using bound Suc.prems(4) by (simp add: algebra_simps)
    have "int (l + 1) * 2 ^ 32 \<le> 512 * (2 ^ 32 :: int)"
      using lcap by simp
    with av' Suc.prems(3) have s2: "s64 (av + \<bar>block_diff fmt samples def i chan l\<bar>) = av + \<bar>block_diff fmt samples def i chan l\<bar>"
      by (intro s64_id) auto
    have IH: "encode_av_diff fmt samples def i cap chan (Suc l) ?x (av + \<bar>block_diff fmt samples def i chan l\<bar>) =
           (if \<forall>k. Suc l \<le> k \<and> k < cap \<longrightarrow> sample_index def (i + k) chan < length samples
            then Some (av + \<bar>block_diff fmt samples def i chan l\<bar> + (\<Sum>k = Suc l..<cap. \<bar>block_diff fmt samples def i chan k\<bar>))
            else None)"
      using Suc.hyps(2) lt Suc.prems(2,3) av' by (intro Suc.hyps(1)) auto
    have all: "(\<forall>k. l \<le> k \<and> k < cap \<longrightarrow> sample_index def (i + k) chan < length samples)
       \<longleftrightarrow> (\<forall>k. Suc l \<le> k \<and> k < cap \<longrightarrow> sample_index def (i + k) chan < length samples)"
    proof (intro iffI allI impI)
      fix k
      assume "\<forall>k. l \<le> k \<and> k < cap \<longrightarrow> sample_index def (i + k) chan < length samples"
        and "Suc l \<le> k \<and> k < cap"
      then show "sample_index def (i + k) chan < length samples"
        by simp
    next
      fix k
      assume *: "\<forall>k. Suc l \<le> k \<and> k < cap \<longrightarrow> sample_index def (i + k) chan < length samples"
        and k: "l \<le> k \<and> k < cap"
      show "sample_index def (i + k) chan < length samples"
      proof (cases "k = l")
        case True
        with \<open>sample_index def (i + l) chan < length samples\<close> show ?thesis
          by simp
      next
        case False
        with k have "Suc l \<le> k \<and> k < cap"
          by simp
        with * show ?thesis
          by blast
      qed
    qed
    have sum: "(\<Sum>k = l..<cap. \<bar>block_diff fmt samples def i chan k\<bar>) =
       \<bar>block_diff fmt samples def i chan l\<bar> + (\<Sum>k = Suc l..<cap. \<bar>block_diff fmt samples def i chan k\<bar>)"
      using lt by (simp add: sum.atLeast_Suc_lessThan)
    show ?thesis
      using lt True
      by (subst encode_av_diff.simps)
        (simp add: sample_at_def Let_def block_sample_def [symmetric] s1 abs1 s2 IH all sum)
  qed
qed

lemma abs_diff_sum_nonneg: "0 \<le> abs_diff_sum fmt samples def i cap chan"
  by (simp add: abs_diff_sum_def sum_nonneg)

lemma abs_diff_sum_bound: "abs_diff_sum fmt samples def i cap chan \<le> int cap * 2 ^ 32"
proof -
  have "abs_diff_sum fmt samples def i cap chan \<le> (\<Sum>l<cap. 2 ^ 32)"
    unfolding abs_diff_sum_def using block_diff_range [of fmt samples "def" i chan]
    by (intro sum_mono) (simp add: less_imp_le)
  then show ?thesis
    by simp
qed

lemma encode_rice_len_eq:
  assumes "cap \<le> 512"
  shows "encode_rice_len fmt samples def i cap chan =
           (if \<forall>k<cap. sample_index def (i + k) chan < length samples
            then Some (block_rice_len fmt samples def i cap chan) else None)"
proof -
  let ?s = "abs_diff_sum fmt samples def i cap chan"
  have av: "encode_av_diff fmt samples def i cap chan 0 0 0 =
              (if \<forall>k<cap. sample_index def (i + k) chan < length samples then Some ?s else None)"
    using assms by (simp add: encode_av_diff_eq abs_diff_sum_def lessThan_atLeast0)
  have nonneg: "0 \<le> ?s"
    by (rule abs_diff_sum_nonneg)
  have "int cap * 2 ^ 32 \<le> 512 * (2 ^ 32 :: int)"
    using assms by (intro mult_right_mono) auto
  with abs_diff_sum_bound [of fmt samples "def" i cap chan] have "?s \<le> 512 * 2 ^ 32"
    by (rule order_trans)
  with nonneg have small: "0 \<le> ?s div 512" "?s div 512 < 2 ^ 63"
    by simp_all
  have "c_div ?s (int BTW_BLOCK_SIZE) = ?s div 512"
    using nonneg by (cases "?s = 0") (simp_all add: c_div_def BTW_BLOCK_SIZE_def sgn_if)
  then show ?thesis
    using small by (simp add: encode_rice_len_def av bits_required_nonneg block_rice_len_def)
qed

lemma bitpos_advance: "bitpos (advance cur n) = bitpos cur + n"
  by (simp add: bitpos_def advance_def)

lemma snd_advance_less: "snd (advance cur n) < 8"
  by (simp add: advance_def)

lemma advance_advance: "advance (advance cur n) m = advance cur (n + m)"
proof -
  have "advance (advance cur n) m =
          ((bitpos (advance cur n) + m) div 8, (bitpos (advance cur n) + m) mod 8)"
    by (simp only: advance_def [of "advance cur n" m])
  also have "\<dots> = ((bitpos cur + (n + m)) div 8, (bitpos cur + (n + m)) mod 8)"
    by (simp only: bitpos_advance add.assoc)
  also have "\<dots> = advance cur (n + m)"
    by (simp only: advance_def)
  finally show ?thesis .
qed

lemma advance_0: "snd cur < 8 \<Longrightarrow> advance cur 0 = cur"
  by (cases cur) (simp add: advance_def bitpos_def)

lemma advance_bytes: "r < 8 \<Longrightarrow> advance (p, b) n = (q, r) \<longleftrightarrow> 8 * p + b + n = 8 * q + r"
proof -
  assume r: "r < 8"
  show ?thesis
  proof
    assume "advance (p, b) n = (q, r)"
    then have "bitpos (advance (p, b) n) = bitpos (q, r)"
      by simp
    then show "8 * p + b + n = 8 * q + r"
      by (simp add: bitpos_advance) (simp add: bitpos_def)
  next
    assume "8 * p + b + n = 8 * q + r"
    with r show "advance (p, b) n = (q, r)"
      by (simp add: advance_def bitpos_def)
  qed
qed

lemma put_bit_eq:
  assumes "b < 8"
  shows "put_bit out (p, b) x =
           (if p < length out
            then Some (out[p := out ! p OR word_of_int (push_bit b x AND 255)], advance (p, b) 1)
            else None)"
proof -
  have "advance (p, b) 1 = (p + (if (b + 1) mod 8 = 0 then 1 else 0), (b + 1) mod 8)"
  proof (cases "b + 1 = 8")
    case True
    then show ?thesis
      by (simp add: advance_bytes)
  next
    case False
    with assms have "b + 1 < 8"
      by simp
    then show ?thesis
      by (simp add: advance_bytes)
  qed
  then show ?thesis
    by (simp add: put_bit_def Let_def)
qed

lemma put_number_loop_eq:
  "p \<le> length out \<Longrightarrow>
   \<exists>out'. length out' = length out \<and>
     put_number_loop out p bits x =
       (if p + bits div 8 \<le> length out
        then Some (out', p + bits div 8, bits mod 8, drop_bit (8 * (bits div 8)) x)
        else None)"
proof (induction out p bits x rule: put_number_loop.induct)
  case (1 out p bits x)
  show ?case
  proof (cases "8 \<le> bits")
    case False
    with 1 show ?thesis
      by (subst put_number_loop.simps) simp
  next
    case big: True
    then obtain k where k: "bits = 8 + k"
      using le_Suc_ex by blast
    show ?thesis
    proof (cases "p < length out")
      case False
      with big show ?thesis
        by (subst put_number_loop.simps) (auto simp: k intro: exI [of _ out])
    next
      case True
      from "1.IH" [OF big True] True
      obtain out' where len: "length out' = length out"
        and loop: "put_number_loop (out[p := word_of_int (x AND 255)]) (p + 1) (bits - 8) (drop_bit 8 x) =
          (if p + 1 + (bits - 8) div 8 \<le> length out
           then Some (out', p + 1 + (bits - 8) div 8, (bits - 8) mod 8,
                      drop_bit (8 * ((bits - 8) div 8)) (drop_bit 8 x))
           else None)"
        by auto
      have "drop_bit (8 * (k div 8)) (drop_bit 8 x) = drop_bit (8 + 8 * (k div 8)) x"
        by (simp add: drop_bit_drop_bit add.commute)
      with len loop big True show ?thesis
        by (subst put_number_loop.simps) (auto simp: k)
    qed
  qed
qed

lemma put_ones_loop_eq:
  "p \<le> length out \<Longrightarrow>
   \<exists>out'. length out' = length out \<and>
     put_ones_loop out p ones =
       (if p + ones div 8 \<le> length out then Some (out', p + ones div 8, ones mod 8) else None)"
proof (induction out p ones rule: put_ones_loop.induct)
  case (1 out p ones)
  show ?case
  proof (cases "8 \<le> ones")
    case False
    with 1 show ?thesis
      by (subst put_ones_loop.simps) simp
  next
    case big: True
    then obtain k where k: "ones = 8 + k"
      using le_Suc_ex by blast
    show ?thesis
    proof (cases "p < length out")
      case False
      with big show ?thesis
        by (subst put_ones_loop.simps) (auto simp: k intro: exI [of _ out])
    next
      case True
      from "1.IH" [OF big True] True
      obtain out' where len: "length out' = length out"
        and loop: "put_ones_loop (out[p := 255]) (p + 1) (ones - 8) =
          (if p + 1 + (ones - 8) div 8 \<le> length out
           then Some (out', p + 1 + (ones - 8) div 8, (ones - 8) mod 8)
           else None)"
        by auto
      with big True show ?thesis
        by (subst put_ones_loop.simps) (auto simp: k)
    qed
  qed
qed

lemma put_number_eq:
  assumes "b < 8"
  shows "\<exists>out'. length out' = length out \<and>
     put_number out (p, b) n x =
       (if n = 0 \<or> 8 * p + b + n \<le> 8 * length out then Some (out', advance (p, b) n)
        else None)"
proof (cases "8 - b < n")
  case False
  with assms have small: "b + n \<le> 8"
    by arith
  show ?thesis
  proof (cases "n = 0")
    case True
    with assms show ?thesis
      by (auto simp: put_number_def advance_0 intro: exI [of _ out])
  next
    case n0: False
    have adv: "advance (p, b) n = (p + (if (b + n) mod 8 = 0 then 1 else 0), (b + n) mod 8)"
    proof (cases "b + n = 8")
      case True
      then show ?thesis
        by (simp add: advance_bytes)
    next
      case False
      with small have "b + n < 8"
        by simp
      with n0 show ?thesis
        by (simp add: advance_bytes)
    qed
    have fits: "8 * p + b + n \<le> 8 * length out \<longleftrightarrow> p < length out"
      using small n0 by auto
    show ?thesis
      using False n0
      by (auto simp: put_number_def Let_def adv fits
          intro: exI [of _ "out[p := out ! p OR word_of_int (push_bit b (x AND drop_bit (8 - n) 255))]"]
                 exI [of _ out])
  qed
next
  case big: True
  then have n0: "n \<noteq> 0"
    by simp
  define bits' where "bits' = n - (8 - b)"
  define q where "q = bits' div 8"
  define r where "r = bits' mod 8"
  have r8: "r < 8"
    by (simp add: r_def)
  have bits': "bits' = 8 * q + r"
    by (simp add: q_def r_def)
  have "n = (8 - b) + bits'"
    using big by (simp add: bits'_def)
  then have total: "8 * p + b + n = 8 * (p + 1 + q) + r"
    using assms by (simp add: bits')
  have adv: "advance (p, b) n = (p + 1 + q, r)"
    using r8 total by (simp add: advance_bytes)
  show ?thesis
  proof (cases "p < length out")
    case False
    then have "\<not> 8 * p + b + n \<le> 8 * length out"
      using total by simp
    with False big n0 show ?thesis
      by (auto simp: put_number_def intro: exI [of _ out])
  next
    case True
    let ?out1 = "out[p := out ! p OR word_of_int (push_bit b (x AND drop_bit b 255) AND 255)]"
    from put_number_loop_eq [of "p + 1" ?out1 bits' "drop_bit (8 - b) x"] True
    obtain out2 where len2: "length out2 = length out"
      and loop: "put_number_loop ?out1 (p + 1) bits' (drop_bit (8 - b) x) =
        (if p + 1 + q \<le> length out
         then Some (out2, p + 1 + q, r, drop_bit (8 * q) (drop_bit (8 - b) x))
         else None)"
      by (auto simp: q_def r_def)
    show ?thesis
    proof (cases "p + 1 + q \<le> length out")
      case False
      then have "\<not> 8 * p + b + n \<le> 8 * length out"
        using total by simp
      with False True big n0 loop show ?thesis
        by (auto simp: put_number_def Let_def bits'_def [symmetric] intro: exI [of _ out])
    next
      case fits1: True
      show ?thesis
      proof (cases "r = 0")
        case True
        then have "8 * p + b + n \<le> 8 * length out"
          using total fits1 by simp
        with True fits1 \<open>p < length out\<close> big n0 loop len2 show ?thesis
          by (auto simp: put_number_def Let_def bits'_def [symmetric] adv)
      next
        case False
        have fits: "8 * p + b + n \<le> 8 * length out \<longleftrightarrow> p + 1 + q < length out"
          using total r8 False by auto
        have "(0 + r) mod 8 = r" "r mod 8 \<noteq> 0"
          using r8 False by simp_all
        with False fits1 \<open>p < length out\<close> big n0 loop len2 show ?thesis
          by (auto simp: put_number_def Let_def bits'_def [symmetric] adv fits)
      qed
    qed
  qed
qed

lemma put_ones_eq:
  assumes "b < 8"
  shows "\<exists>out'. length out' = length out \<and>
     put_ones out (p, b) n =
       (if n = 0 \<or> 8 * p + b + n \<le> 8 * length out then Some (out', advance (p, b) n)
        else None)"
proof (cases "8 - b < n")
  case False
  with assms have small: "b + n \<le> 8"
    by arith
  show ?thesis
  proof (cases "n = 0")
    case True
    with assms show ?thesis
      by (auto simp: put_ones_def advance_0 intro: exI [of _ out])
  next
    case n0: False
    have adv: "advance (p, b) n = (p + (if (b + n) mod 8 = 0 then 1 else 0), (b + n) mod 8)"
    proof (cases "b + n = 8")
      case True
      then show ?thesis
        by (simp add: advance_bytes)
    next
      case False
      with small have "b + n < 8"
        by simp
      with n0 show ?thesis
        by (simp add: advance_bytes)
    qed
    have fits: "8 * p + b + n \<le> 8 * length out \<longleftrightarrow> p < length out"
      using small n0 by auto
    show ?thesis
      using False n0
      by (auto simp: put_ones_def Let_def adv fits
          intro: exI [of _ "out[p := out ! p OR word_of_int (push_bit b (drop_bit (8 - n) 255) AND 255)]"]
                 exI [of _ out])
  qed
next
  case big: True
  then have n0: "n \<noteq> 0"
    by simp
  define bits' where "bits' = n - (8 - b)"
  define q where "q = bits' div 8"
  define r where "r = bits' mod 8"
  have r8: "r < 8"
    by (simp add: r_def)
  have bits': "bits' = 8 * q + r"
    by (simp add: q_def r_def)
  have "n = (8 - b) + bits'"
    using big by (simp add: bits'_def)
  then have total: "8 * p + b + n = 8 * (p + 1 + q) + r"
    using assms by (simp add: bits')
  have adv: "advance (p, b) n = (p + 1 + q, r)"
    using r8 total by (simp add: advance_bytes)
  show ?thesis
  proof (cases "p < length out")
    case False
    then have "\<not> 8 * p + b + n \<le> 8 * length out"
      using total by simp
    with False big n0 show ?thesis
      by (auto simp: put_ones_def intro: exI [of _ out])
  next
    case True
    let ?out1 = "out[p := out ! p OR word_of_int (push_bit b 255 AND 255)]"
    from put_ones_loop_eq [of "p + 1" ?out1 bits'] True
    obtain out2 where len2: "length out2 = length out"
      and loop: "put_ones_loop ?out1 (p + 1) bits' =
        (if p + 1 + q \<le> length out then Some (out2, p + 1 + q, r) else None)"
      by (auto simp: q_def r_def)
    show ?thesis
    proof (cases "p + 1 + q \<le> length out")
      case False
      then have "\<not> 8 * p + b + n \<le> 8 * length out"
        using total by simp
      with False True big n0 loop show ?thesis
        by (auto simp: put_ones_def Let_def bits'_def [symmetric] intro: exI [of _ out])
    next
      case fits1: True
      show ?thesis
      proof (cases "r = 0")
        case True
        then have "8 * p + b + n \<le> 8 * length out"
          using total fits1 by simp
        with True fits1 \<open>p < length out\<close> big n0 loop len2 show ?thesis
          by (auto simp: put_ones_def Let_def bits'_def [symmetric] adv)
      next
        case False
        have fits: "8 * p + b + n \<le> 8 * length out \<longleftrightarrow> p + 1 + q < length out"
          using total r8 False by auto
        have "(0 + r) mod 8 = r" "r mod 8 \<noteq> 0"
          using r8 False by simp_all
        with False fits1 \<open>p < length out\<close> big n0 loop len2 show ?thesis
          by (auto simp: put_ones_def Let_def bits'_def [symmetric] adv fits)
      qed
    qed
  qed
qed

lemma put_bit_SomeD:
  assumes "put_bit out cur x = Some (out', cur')" "snd cur < 8"
  shows "length out' = length out" and "cur' = advance cur 1" and "bitpos cur' \<le> 8 * length out'"
proof -
  obtain p b where cur: "cur = (p, b)"
    by (cases cur)
  with assms have b: "b < 8"
    by simp
  from assms(1) have p: "p < length out" and out': "length out' = length out"
    and cur': "cur' = advance (p, b) 1"
    unfolding cur put_bit_eq [OF b] by (auto split: if_splits)
  have "bitpos cur' = 8 * p + b + 1"
    by (simp add: cur' bitpos_advance) (simp add: bitpos_def)
  with p b out' cur' show "length out' = length out" and "cur' = advance cur 1"
    and "bitpos cur' \<le> 8 * length out'"
    by (simp_all add: cur)
qed

lemma put_number_SomeD:
  assumes "put_number out cur n x = Some (out', cur')" "snd cur < 8"
    and "bitpos cur \<le> 8 * length out"
  shows "length out' = length out" and "cur' = advance cur n" and "bitpos cur' \<le> 8 * length out'"
proof -
  obtain p b where cur: "cur = (p, b)"
    by (cases cur)
  with assms have b: "b < 8"
    by simp
  from put_number_eq [OF b, of out p n x] assms(1)
  have out': "length out' = length out" and cur': "cur' = advance (p, b) n"
    and fits: "n = 0 \<or> 8 * p + b + n \<le> 8 * length out"
    unfolding cur by (auto split: if_splits)
  have "bitpos cur' = 8 * p + b + n"
    by (simp add: cur' bitpos_advance) (simp add: bitpos_def)
  with fits assms(3) out' cur' show "length out' = length out" and "cur' = advance cur n"
    and "bitpos cur' \<le> 8 * length out'"
    by (auto simp: cur bitpos_def)
qed

lemma put_ones_SomeD:
  assumes "put_ones out cur n = Some (out', cur')" "snd cur < 8"
    and "bitpos cur \<le> 8 * length out"
  shows "length out' = length out" and "cur' = advance cur n" and "bitpos cur' \<le> 8 * length out'"
proof -
  obtain p b where cur: "cur = (p, b)"
    by (cases cur)
  with assms have b: "b < 8"
    by simp
  from put_ones_eq [OF b, of out p n] assms(1)
  have out': "length out' = length out" and cur': "cur' = advance (p, b) n"
    and fits: "n = 0 \<or> 8 * p + b + n \<le> 8 * length out"
    unfolding cur by (auto split: if_splits)
  have "bitpos cur' = 8 * p + b + n"
    by (simp add: cur' bitpos_advance) (simp add: bitpos_def)
  with fits assms(3) out' cur' show "length out' = length out" and "cur' = advance cur n"
    and "bitpos cur' \<le> 8 * length out'"
    by (auto simp: cur bitpos_def)
qed

lemma u64_id: "x < 2 ^ 64 \<Longrightarrow> u64 x = x"
  by (simp add: u64_def take_bit_int_eq_self)

lemma u32_id: "x < 2 ^ 32 \<Longrightarrow> u32 x = x"
  by (simp add: u32_def take_bit_int_eq_self)

lemma u8_id: "x < 2 ^ 8 \<Longrightarrow> u8 x = x"
  by (simp add: u8_def take_bit_int_eq_self)

lemma drop_bit_abs_less: "\<bar>d\<bar> < 2 ^ 32 \<Longrightarrow> nat (drop_bit r \<bar>d\<bar>) < 2 ^ 32"
proof -
  assume "\<bar>d\<bar> < 2 ^ 32"
  then have "nat \<bar>d\<bar> < 2 ^ 32"
    by simp
  moreover have "nat (drop_bit r \<bar>d\<bar>) = drop_bit r (nat \<bar>d\<bar>)"
    by (simp add: drop_bit_nat_eq)
  moreover have "drop_bit r (nat \<bar>d\<bar>) \<le> nat \<bar>d\<bar>"
    by (simp add: drop_bit_eq_div)
  ultimately show ?thesis
    by simp
qed

lemma encode_samples_cursor:
  assumes "encode_samples fmt samples def i cap chan rice_len l prev (out, cur) = Some (out', cur')"
    and "snd cur < 8" "bitpos cur \<le> 8 * length out" "rice_len < 256"
    and "prev = (if l = 0 then 0 else block_sample fmt samples def i chan (l - 1))"
  shows "length out' = length out
    \<and> cur' = advance cur (\<Sum>k = l..<cap. codeword_bits rice_len (block_diff fmt samples def i chan k))
    \<and> bitpos cur' \<le> 8 * length out'"
  using assms
proof (induction "cap - l" arbitrary: l prev out cur)
  case 0
  then have "\<not> l < cap"
    by simp
  with 0 show ?case
    by (simp add: encode_samples.simps advance_0)
next
  case (Suc n)
  then have lt: "l < cap"
    by simp
  let ?x = "block_sample fmt samples def i chan l"
  let ?d = "block_diff fmt samples def i chan l"
  have bound: "\<bar>?d\<bar> < 2 ^ 32"
    by (rule block_diff_range)
  have diff: "s64 (?x - prev) = ?d"
    using bound by (simp add: block_diff_def Suc.prems(5) s64_id)
  have abs1: "BTW_abs ?d = \<bar>?d\<bar>"
    using bound by (simp add: BTW_abs_def s64_id)
  have ones: "u32 (u64 (nat (drop_bit rice_len \<bar>?d\<bar>))) = nat (drop_bit rice_len \<bar>?d\<bar>)"
    using drop_bit_abs_less [OF bound, of rice_len] by (simp add: u64_id u32_id)
  have r8: "u8 rice_len = rice_len"
    using Suc.prems(4) by (simp add: u8_id)
  from Suc.prems(1) lt obtain o1 c1 o2 c2 o3 c3 o4 c4 where
    valid: "sample_index def (i + l) chan < length samples"
    and p1: "put_bit out cur (if ?d < 0 then 1 else 0) = Some (o1, c1)"
    and p2: "put_ones o1 c1 (nat (drop_bit rice_len \<bar>?d\<bar>)) = Some (o2, c2)"
    and p3: "put_bit o2 c2 0 = Some (o3, c3)"
    and p4: "put_number o3 c3 rice_len \<bar>?d\<bar> = Some (o4, c4)"
    and rest: "encode_samples fmt samples def i cap chan rice_len (l + 1) ?x (o4, c4) = Some (out', cur')"
    by (subst (asm) encode_samples.simps)
      (auto simp: sample_at_def Let_def block_sample_def [symmetric] diff abs1 ones r8
        bind_eq_Some_conv split: if_splits)
  note 1 = put_bit_SomeD [OF p1 Suc.prems(2)]
  have s1: "snd c1 < 8"
    by (simp add: 1 snd_advance_less)
  note 2 = put_ones_SomeD [OF p2 s1 1(3)]
  have s2: "snd c2 < 8"
    by (simp add: 2 snd_advance_less)
  note 3 = put_bit_SomeD [OF p3 s2]
  have s3: "snd c3 < 8"
    by (simp add: 3 snd_advance_less)
  note 4 = put_number_SomeD [OF p4 s3 3(3)]
  have s4: "snd c4 < 8"
    by (simp add: 4 snd_advance_less)
  have c4: "c4 = advance cur (codeword_bits rice_len ?d)"
    by (simp add: 4 3 2 1 advance_advance codeword_bits_def add_ac)
  from Suc.hyps(2) have n: "n = cap - (l + 1)"
    by simp
  have IH: "length out' = length o4
    \<and> cur' = advance c4 (\<Sum>k = l + 1..<cap. codeword_bits rice_len (block_diff fmt samples def i chan k))
    \<and> bitpos cur' \<le> 8 * length out'"
    by (rule Suc.hyps(1) [OF n rest s4 4(3) Suc.prems(4)]) simp
  have len: "length o4 = length out"
    by (simp add: 1(1) 2(1) 3(1) 4(1))
  have split: "(\<Sum>k = l..<cap. codeword_bits rice_len (block_diff fmt samples def i chan k)) =
    codeword_bits rice_len ?d
    + (\<Sum>k = l + 1..<cap. codeword_bits rice_len (block_diff fmt samples def i chan k))"
    using lt by (simp add: sum.atLeast_Suc_lessThan)
  from IH show ?case
    by (simp only: len c4 advance_advance split) auto
qed

lemma abs_diff_sum_div_range:
  assumes "cap \<le> 512"
  shows "0 \<le> abs_diff_sum fmt samples def i cap chan div 512"
    and "abs_diff_sum fmt samples def i cap chan div 512 < 2 ^ 63"
proof -
  let ?s = "abs_diff_sum fmt samples def i cap chan"
  have nonneg: "0 \<le> ?s"
    by (rule abs_diff_sum_nonneg)
  have "int cap * 2 ^ 32 \<le> 512 * (2 ^ 32 :: int)"
    using assms by (intro mult_right_mono) auto
  with abs_diff_sum_bound [of fmt samples "def" i cap chan] have "?s \<le> 512 * 2 ^ 32"
    by (rule order_trans)
  with nonneg show "0 \<le> ?s div 512" "?s div 512 < 2 ^ 63"
    by simp_all
qed

lemma block_rice_len_less:
  assumes "cap \<le> 512"
  shows "block_rice_len fmt samples def i cap chan < 64"
proof -
  from abs_diff_sum_div_range [OF assms, of fmt samples "def" i chan]
  have "nat (abs_diff_sum fmt samples def i cap chan div 512) < 2 ^ 63"
    by (simp add: nat_less_iff)
  then have "floorlog 2 (nat (abs_diff_sum fmt samples def i cap chan div 512)) \<le> 63"
    by (rule floorlog_2_bound)
  then show ?thesis
    by (simp add: block_rice_len_def)
qed

lemma encode_channel_cursor:
  assumes "encode_channel fmt samples def bprl i cap chan (out, cur) = Some (out', cur')"
    and "snd cur < 8" "bitpos cur \<le> 8 * length out" "cap \<le> 512" "bprl < 256"
  shows "length out' = length out
    \<and> cur' = advance cur (record_bits fmt samples def bprl i cap chan)
    \<and> bitpos cur' \<le> 8 * length out'"
proof -
  let ?r = "block_rice_len fmt samples def i cap chan"
  have r: "?r < 256"
    using block_rice_len_less [OF assms(4), of fmt samples "def" i chan] by simp
  from assms(1) obtain o1 c1 where
    p1: "put_number out cur bprl (int ?r) = Some (o1, c1)"
    and rest: "encode_samples fmt samples def i cap chan ?r 0 0 (o1, c1) = Some (out', cur')"
    by (auto simp: encode_channel_def encode_rice_len_eq [OF assms(4)] u8_id assms(5)
        bind_eq_Some_conv split: if_splits)
  note 1 = put_number_SomeD [OF p1 assms(2,3)]
  have s1: "snd c1 < 8"
    by (simp add: 1 snd_advance_less)
  have "length out' = length o1
    \<and> cur' = advance c1 (\<Sum>k = 0..<cap. codeword_bits ?r (block_diff fmt samples def i chan k))
    \<and> bitpos cur' \<le> 8 * length out'"
    by (rule encode_samples_cursor [OF rest s1 1(3) r]) simp
  then show ?thesis
    by (simp only: 1 advance_advance record_bits_def lessThan_atLeast0) auto
qed

lemma encode_channels_cursor:
  assumes "encode_channels fmt samples def bprl i cap chan (out, cur) = Some (out', cur')"
    and "snd cur < 8" "bitpos cur \<le> 8 * length out" "cap \<le> 512" "bprl < 256"
  shows "length out' = length out
    \<and> cur' = advance cur (\<Sum>c = chan..<unat (channels def). record_bits fmt samples def bprl i cap c)
    \<and> bitpos cur' \<le> 8 * length out'"
  using assms(1,2,3)
proof (induction "unat (channels def) - chan" arbitrary: chan out cur)
  case 0
  then have "\<not> chan < unat (channels def)"
    by simp
  with 0 show ?case
    by (simp add: encode_channels.simps advance_0)
next
  case (Suc n)
  then have lt: "chan < unat (channels def)"
    by simp
  from Suc.prems(1) lt obtain o1 c1 where
    ch: "encode_channel fmt samples def bprl i cap chan (out, cur) = Some (o1, c1)"
    and rest: "encode_channels fmt samples def bprl i cap (chan + 1) (o1, c1) = Some (out', cur')"
    by (subst (asm) encode_channels.simps) (auto simp: bind_eq_Some_conv)
  from encode_channel_cursor [OF ch Suc.prems(2,3) assms(4,5)]
  have 1: "length o1 = length out" "c1 = advance cur (record_bits fmt samples def bprl i cap chan)"
    "bitpos c1 \<le> 8 * length o1"
    by blast+
  have s1: "snd c1 < 8"
    by (simp add: 1 snd_advance_less)
  from Suc.hyps(2) have n: "n = unat (channels def) - (chan + 1)"
    by simp
  have IH: "length out' = length o1
    \<and> cur' = advance c1 (\<Sum>c = chan + 1..<unat (channels def). record_bits fmt samples def bprl i cap c)
    \<and> bitpos cur' \<le> 8 * length out'"
    by (rule Suc.hyps(1) [OF n rest s1 1(3)])
  have split: "(\<Sum>c = chan..<unat (channels def). record_bits fmt samples def bprl i cap c) =
    record_bits fmt samples def bprl i cap chan
    + (\<Sum>c = chan + 1..<unat (channels def). record_bits fmt samples def bprl i cap c)"
    using lt by (simp add: sum.atLeast_Suc_lessThan)
  from IH show ?case
    by (simp only: 1 advance_advance split) auto
qed

lemma block_cap_le: "block_cap def i \<le> 512"
  by (simp add: block_cap_def BTW_BLOCK_SIZE_def)

lemma block_cap_pos: "i < unat (sample_count def) \<Longrightarrow> 0 < block_cap def i"
  by (simp add: block_cap_def BTW_BLOCK_SIZE_def)

lemma encode_blocks_cursor:
  assumes "encode_blocks fmt samples def bprl i (out, cur) = Some (out', cur')"
    and "snd cur < 8" "bitpos cur \<le> 8 * length out" "bprl < 256"
  shows "length out' = length out
    \<and> cur' = advance cur (stream_bits fmt samples def bprl i)
    \<and> bitpos cur' \<le> 8 * length out'"
  using assms(1,2,3)
proof (induction "unat (sample_count def) - i" arbitrary: i out cur rule: less_induct)
  case less
  show ?case
  proof (cases "i < unat (sample_count def)")
    case False
    with less.prems show ?thesis
      by (simp add: encode_blocks.simps stream_bits.simps advance_0)
  next
    case True
    from less.prems(1) True obtain o1 c1 where
      ch: "encode_channels fmt samples def bprl i (block_cap def i) 0 (out, cur) = Some (o1, c1)"
      and rest: "encode_blocks fmt samples def bprl (i + block_cap def i) (o1, c1) = Some (out', cur')"
      by (subst (asm) encode_blocks.simps) (auto simp: bind_eq_Some_conv Let_def)
    from encode_channels_cursor [OF ch less.prems(2,3) block_cap_le assms(4)]
    have 1: "length o1 = length out"
      "c1 = advance cur (\<Sum>c = 0..<unat (channels def). record_bits fmt samples def bprl i (block_cap def i) c)"
      "bitpos c1 \<le> 8 * length o1"
      by blast+
    have s1: "snd c1 < 8"
      by (simp add: 1 snd_advance_less)
    have smaller: "unat (sample_count def) - (i + block_cap def i) < unat (sample_count def) - i"
      using True block_cap_pos [OF True] by simp
    have IH: "length out' = length o1
      \<and> cur' = advance c1 (stream_bits fmt samples def bprl (i + block_cap def i))
      \<and> bitpos cur' \<le> 8 * length out'"
      by (rule less.hyps [OF smaller rest s1 1(3)])
    have split: "stream_bits fmt samples def bprl i =
      (\<Sum>c = 0..<unat (channels def). record_bits fmt samples def bprl i (block_cap def i) c)
      + stream_bits fmt samples def bprl (i + block_cap def i)"
      using True by (subst stream_bits.simps) (simp add: lessThan_atLeast0)
    from IH show ?thesis
      by (simp only: 1 advance_advance split) auto
  qed
qed

lemma encode_header_cursor:
  assumes "encode_header out def = Some (out', cur')"
  shows "length out' = length out" and "cur' = (20, 0)" and "160 \<le> 8 * length out"
proof -
  from assms obtain o1 c1 o2 c2 o3 c3 o4 c4 where
    p1: "put_number out (0, 0) 32 BTW_MAGIC = Some (o1, c1)"
    and p2: "put_number o1 c1 64 (sint (sample_count def)) = Some (o2, c2)"
    and p3: "put_number o2 c2 16 (uint (channels def)) = Some (o3, c3)"
    and p4: "put_number o3 c3 16 (uint (bits_per_sample def)) = Some (o4, c4)"
    and p5: "put_number o4 c4 32 (sint (sample_rate def)) = Some (out', cur')"
    by (auto simp: encode_header_def bind_eq_Some_conv)
  have s0: "snd (0 :: nat, 0 :: nat) < 8" "bitpos (0, 0) \<le> 8 * length out"
    by (simp_all add: bitpos_def)
  note 1 = put_number_SomeD [OF p1 s0]
  have s1: "snd c1 < 8"
    by (simp add: 1 snd_advance_less)
  note 2 = put_number_SomeD [OF p2 s1 1(3)]
  have s2: "snd c2 < 8"
    by (simp add: 2 snd_advance_less)
  note 3 = put_number_SomeD [OF p3 s2 2(3)]
  have s3: "snd c3 < 8"
    by (simp add: 3 snd_advance_less)
  note 4 = put_number_SomeD [OF p4 s3 3(3)]
  have s4: "snd c4 < 8"
    by (simp add: 4 snd_advance_less)
  note 5 = put_number_SomeD [OF p5 s4 4(3)]
  show "length out' = length out"
    by (simp add: 1 2 3 4 5)
  have "cur' = advance (0, 0) 160"
    by (simp add: 1 2 3 4 5 advance_advance)
  then show cur': "cur' = (20, 0)"
    by (simp add: advance_def bitpos_def)
  from 5(3) show "160 \<le> 8 * length out"
    by (simp add: cur' 1 2 3 4 5(1) bitpos_def)
qed

lemma ceil8: "b < 8 \<Longrightarrow> (8 * p + b + 7) div 8 = (if b \<noteq> 0 then p + 1 else p)"
  for p b :: nat
  by arith

lemma bits_per_rice_len_less:
  "bits_required (uint (w :: 32 word)) = Some (floorlog 2 (unat w) - 1) \<and> floorlog 2 (unat w) - 1 < 32"
proof -
  have "uint w < 2 ^ 32"
    using uint_bounded [of w] by simp
  then have "uint w < 2 ^ 63"
    by simp
  then have "bits_required (uint w) = Some (floorlog 2 (nat (uint w)) - 1)"
    by (intro bits_required_nonneg) simp_all
  moreover have "unat w < 2 ^ LENGTH(32)"
    by (rule unsigned_less)
  then have "unat w < 2 ^ 32"
    by simp
  then have "floorlog 2 (unat w) \<le> 32"
    by (rule floorlog_2_bound)
  ultimately show ?thesis
    by (auto simp: nat_uint_eq)
qed

lemma btw_encode_Returned:
  assumes "btw_encode fmt (Some samples) (Some def) out_len = Returned (out, n)"
  shows "length out = max_len def"
    and "n = (160 + stream_bits fmt samples def (bits_per_rice_len def) 0 + 7) div 8"
    and "160 + stream_bits fmt samples def (bits_per_rice_len def) 0 \<le> 8 * max_len def"
proof -
  let ?b = "bits_per_rice_len def"
  have b: "bits_required (uint (bits_per_sample def)) = Some ?b" "?b < 256"
    using bits_per_rice_len_less [of "bits_per_sample def"] by (simp_all add: bits_per_rice_len_def)
  from assms obtain o1 mc c2 where
    hdr: "encode_header (replicate (max_len def) 0) def = Some (o1, mc)"
    and blocks: "encode_blocks fmt samples def ?b 0 (o1, (fst mc, 0)) = Some (out, c2)"
    and n: "n = (if snd c2 \<noteq> 0 then fst c2 + 1 else fst c2)"
    by (auto simp: btw_encode_def b Let_def bind_eq_Some_conv split: if_splits option.splits)
  note h = encode_header_cursor [OF hdr]
  have start: "snd (fst mc, 0 :: nat) < 8" "bitpos (fst mc, 0) \<le> 8 * length o1"
    using h by (simp_all add: bitpos_def)
  have "length out = length o1
    \<and> c2 = advance (fst mc, 0) (stream_bits fmt samples def ?b 0)
    \<and> bitpos c2 \<le> 8 * length out"
    by (rule encode_blocks_cursor [OF blocks start b(2)])
  then have c: "length out = length o1"
    "c2 = advance (fst mc, 0) (stream_bits fmt samples def ?b 0)"
    "bitpos c2 \<le> 8 * length out"
    by blast+
  from c(1) show len: "length out = max_len def"
    by (simp add: h)
  obtain p r where c2: "c2 = (p, r)"
    by (cases c2)
  have "snd c2 < 8"
    by (simp only: c(2) snd_advance_less)
  then have r: "r < 8"
    by (simp add: c2)
  have "bitpos c2 = bitpos (fst mc, 0) + stream_bits fmt samples def ?b 0"
    by (simp only: c(2) bitpos_advance)
  then have pos: "8 * p + r = 160 + stream_bits fmt samples def ?b 0"
    by (simp add: h c2 bitpos_def)
  from ceil8 [OF r, of p] show "n = (160 + stream_bits fmt samples def ?b 0 + 7) div 8"
    by (simp add: n c2 pos [symmetric])
  from c(3) show "160 + stream_bits fmt samples def ?b 0 \<le> 8 * max_len def"
    by (simp add: len [symmetric] pos [symmetric] c2 bitpos_def)
qed

lemma u64_le: "u64 x \<le> x"
  by (simp add: u64_def take_bit_of_nat)

lemma grab_bit_snd: "grab_bit data cur = Some (r, cur') \<Longrightarrow> snd cur' < 8"
  by (cases cur) (auto simp: grab_bit_def Let_def split: if_splits)

lemma grab_number_snd:
  assumes "grab_number data cur n = Some (r, cur')" "snd cur < 8"
  shows "snd cur' < 8"
proof -
  obtain p b where cur: "cur = (p, b)"
    by (cases cur)
  from assms show ?thesis
    unfolding cur grab_number_def
    by (auto simp: Let_def bind_eq_Some_conv split: if_splits)
qed

lemma decode_unary_snd: "decode_unary data cur rice_len diff = Some (d, cur') \<Longrightarrow> snd cur' < 8"
proof (induction data cur rice_len diff rule: decode_unary.induct)
  case (1 data cur rice_len diff)
  from "1.prems" obtain b c1 where g: "grab_bit data cur = Some (b, c1)"
    by (subst (asm) decode_unary.simps) (auto split: option.splits)
  show ?case
  proof (cases "b \<noteq> 0")
    case True
    with "1.prems" g have "decode_unary data c1 rice_len (s64 (diff + shl_int 1 rice_len)) = Some (d, cur')"
      by (subst (asm) decode_unary.simps) simp
    with "1.IH" [OF g refl True] show ?thesis
      by simp
  next
    case False
    with "1.prems" g have "cur' = c1"
      by (subst (asm) decode_unary.simps) simp
    with grab_bit_snd [OF g] show ?thesis
      by simp
  qed
qed

lemma decode_samples_snd:
  assumes "decode_samples fmt data def i cap chan rice_len j prev (outp, k, cur) = Some (outp', k', cur')"
    and "snd cur < 8"
  shows "snd cur' < 8"
  using assms
proof (induction "cap - j" arbitrary: j prev outp k cur)
  case 0
  then show ?case
    by (simp add: decode_samples.simps)
next
  case (Suc n)
  then have lt: "j < cap"
    by simp
  from Suc.prems(1) lt obtain sign c1 d c2 r c3 v where
    g1: "grab_bit data cur = Some (sign, c1)"
    and g2: "decode_unary data c1 rice_len 0 = Some (d, c2)"
    and g3: "grab_number data c2 rice_len = Some (r, c3)"
    and rest: "decode_samples fmt data def i cap chan rice_len (j + 1) v
        (outp[sample_index def (i + j) chan := Some v], u64 (k + 1), c3) = Some (outp', k', cur')"
    by (simp only: decode_samples.simps [of _ _ _ _ _ _ _ j])
      (auto simp: Let_def bind_eq_Some_conv split: if_splits)
  have "snd c3 < 8"
    by (rule grab_number_snd [OF g3 decode_unary_snd [OF g2]])
  moreover from Suc.hyps(2) have "n = cap - (j + 1)"
    by simp
  ultimately show ?case
    using rest by (rule Suc.hyps(1) [rotated 2])
qed

lemma decode_channels_snd:
  assumes "decode_channels fmt data def bprl i cap chan (outp, k, cur) = Some (outp', k', cur')"
    and "snd cur < 8"
  shows "snd cur' < 8"
  using assms
proof (induction "unat (channels def) - chan" arbitrary: chan outp k cur)
  case 0
  then show ?case
    by (simp add: decode_channels.simps)
next
  case (Suc n)
  then have lt: "chan < unat (channels def)"
    by simp
  from Suc.prems(1) lt obtain rice_len c1 o1 k1 c2 where
    g1: "grab_number data cur bprl = Some (rice_len, c1)"
    and s: "decode_samples fmt data def i cap chan (nat (signed_take_bit 31 rice_len)) 0 0
              (outp, k, c1) = Some (o1, k1, c2)"
    and rest: "decode_channels fmt data def bprl i cap (chan + 1) (o1, k1, c2) = Some (outp', k', cur')"
    by (simp only: decode_channels.simps [of _ _ _ _ _ _ chan])
      (auto simp: bind_eq_Some_conv)
  have "snd c2 < 8"
    by (rule decode_samples_snd [OF s grab_number_snd [OF g1 Suc.prems(2)]])
  moreover from Suc.hyps(2) have "n = unat (channels def) - (chan + 1)"
    by simp
  ultimately show ?case
    using rest by (rule Suc.hyps(1) [rotated 2])
qed

subsection \<open>The size of the output buffer\<close>

lemma record_bits_8ch:
  assumes "chan < 8"
  shows "record_bits BTW_S16 (replicate 8 1023) def_8ch 4 0 (Suc 0) chan = 1029"
proof -
  have idx: "sample_index def_8ch 0 chan = chan"
    using assms by (simp add: sample_index_def def_8ch_def u64_id)
  have d: "block_diff BTW_S16 (replicate 8 1023) def_8ch 0 chan 0 = 1023"
    using assms by (simp add: block_diff_def block_sample_def idx fmt_value_def)
  have "floorlog 2 (nat (1023 div 512)) - 1 = 0"
    by (simp add: compute_floorlog)
  then have r: "block_rice_len BTW_S16 (replicate 8 1023) def_8ch 0 (Suc 0) chan = 0"
    by (simp add: block_rice_len_def abs_diff_sum_def d)
  show ?thesis
    by (simp add: record_bits_def r d codeword_bits_def)
qed

lemma stream_bits_8ch: "stream_bits BTW_S16 (replicate 8 1023) def_8ch 4 0 = 8232"
proof -
  have cap: "block_cap def_8ch 0 = Suc 0"
    by (simp add: block_cap_def def_8ch_def BTW_BLOCK_SIZE_def)
  have "stream_bits BTW_S16 (replicate 8 1023) def_8ch 4 0 =
          (\<Sum>chan<8. record_bits BTW_S16 (replicate 8 1023) def_8ch 4 0 (Suc 0) chan)
          + stream_bits BTW_S16 (replicate 8 1023) def_8ch 4 (Suc 0)"
    by (subst stream_bits.simps) (simp add: cap, simp add: def_8ch_def)
  moreover have "stream_bits BTW_S16 (replicate 8 1023) def_8ch 4 (Suc 0) = 0"
    by (subst stream_bits.simps) (simp add: def_8ch_def)
  moreover have "(\<Sum>chan<8. record_bits BTW_S16 (replicate 8 1023) def_8ch 4 0 (Suc 0) chan) = (\<Sum>chan<(8::nat). 1029)"
    by (rule sum.cong) (simp_all add: record_bits_8ch)
  ultimately show ?thesis
    by simp
qed

text \<open>
  Claim C9, at an input where the code leaves it: eight channels, 16 bits per sample, one
  frame, every sample 1023. The buffer has \<open>8 * 1 * 16 / 8 + 1024 = 1040\<close> bytes. Each
  channel takes 4 + 1 + 1023 + 1 bits (the Rice parameter is 0, since 1023 / 512 = 1), so
  the stream needs 160 + 8232 = 8392 bits, more than the 8320 of the buffer: the encoder
  writes behind the end of the buffer.
\<close>

theorem encode_overflows_buffer:
  "btw_encode BTW_S16 (Some (replicate 8 1023)) (Some def_8ch) (Some 0) = Undefined
   \<and> max_len def_8ch = 1040
   \<and> 160 + stream_bits BTW_S16 (replicate 8 1023) def_8ch (bits_per_rice_len def_8ch) 0 = 8392"
proof -
  have b: "bits_per_rice_len def_8ch = 4"
    by (simp add: bits_per_rice_len_def def_8ch_def compute_floorlog)
  have m: "max_len def_8ch = 1040"
    by (simp add: max_len_def def_8ch_def)
  have bits: "160 + stream_bits BTW_S16 (replicate 8 1023) def_8ch (bits_per_rice_len def_8ch) 0 = 8392"
    by (simp add: b stream_bits_8ch)
  have "btw_encode BTW_S16 (Some (replicate 8 1023)) (Some def_8ch) (Some 0) = Undefined"
  proof (cases "btw_encode BTW_S16 (Some (replicate 8 1023)) (Some def_8ch) (Some 0)")
    case Undefined
    then show ?thesis .
  next
    case Exit_Failure
    then show ?thesis
      by (simp add: btw_encode_def def_8ch_def split: option.splits)
  next
    case (Returned r)
    obtain out n where "r = (out, n)"
      by (cases r)
    with Returned btw_encode_Returned(3) [of BTW_S16 "replicate 8 1023" def_8ch "Some 0" out n]
    show ?thesis
      by (simp add: bits m)
  qed
  with m bits show ?thesis
    by simp
qed

subsection \<open>The Rice parameter of a block\<close>

lemma sample_index_valid:
  assumes "i < unat (sample_count def)" "chan < unat (channels def)"
    and "length samples = unat (sample_count def) * unat (channels def)"
    and "k < block_cap def i"
  shows "sample_index def (i + k) chan < length samples"
proof -
  from assms(1,4) have "i + k + 1 \<le> unat (sample_count def)"
    by (simp add: block_cap_def split: if_splits)
  then have "(i + k + 1) * unat (channels def) \<le> unat (sample_count def) * unat (channels def)"
    by (rule mult_le_mono1)
  with assms(2) have "(i + k) * unat (channels def) + chan < length samples"
    by (simp add: assms(3))
  moreover have "sample_index def (i + k) chan \<le> (i + k) * unat (channels def) + chan"
    by (simp only: sample_index_def) (rule u64_le)
  ultimately show ?thesis
    by simp
qed

text \<open>
  Claim C6: in every block of a buffer that holds \<open>sample_count * channels\<close> samples, and
  for every channel, the Rice parameter that the encoder computes is the bit length of the
  sum of the absolute differences of the block divided by 512, whatever the number of
  frames in the block (\<open>block_cap\<close>, which is less than 512 in the last block). The body of
  the channel loop of \<^verbatim>\<open>btw_encode\<close> writes this value in front of the samples and codes
  every sample of the block with it, and the length that \<^verbatim>\<open>btw_encode\<close> returns is the
  length of the stream whose records carry this parameter.
\<close>

theorem rice_len_uses_block_size:
  assumes "i < unat (sample_count def)" "chan < unat (channels def)"
    and "length samples = unat (sample_count def) * unat (channels def)"
  shows "encode_rice_len fmt samples def i (block_cap def i) chan
           = bits_required (abs_diff_sum fmt samples def i (block_cap def i) chan div 512)
    \<and> bits_required (abs_diff_sum fmt samples def i (block_cap def i) chan div 512)
           = Some (floorlog 2 (nat (abs_diff_sum fmt samples def i (block_cap def i) chan div 512)) - 1)
    \<and> encode_channel fmt samples def bprl i (block_cap def i) chan st
           = do {
               (output1, cur1) \<leftarrow> put_number (fst st) (snd st) (u8 bprl)
                 (int (floorlog 2 (nat (abs_diff_sum fmt samples def i (block_cap def i) chan div 512)) - 1));
               encode_samples fmt samples def i (block_cap def i) chan
                 (floorlog 2 (nat (abs_diff_sum fmt samples def i (block_cap def i) chan div 512)) - 1)
                 0 0 (output1, cur1)
             }
    \<and> (\<forall>out n. btw_encode fmt (Some samples) (Some def) out_len = Returned (out, n) \<longrightarrow>
           n = (160 + stream_bits fmt samples def (bits_per_rice_len def) 0 + 7) div 8)"
proof -
  let ?cap = "block_cap def i"
  have valid: "\<forall>k<?cap. sample_index def (i + k) chan < length samples"
    using sample_index_valid [OF assms] by blast
  have r: "encode_rice_len fmt samples def i ?cap chan = Some (block_rice_len fmt samples def i ?cap chan)"
    using valid by (simp add: encode_rice_len_eq [OF block_cap_le])
  have b: "bits_required (abs_diff_sum fmt samples def i ?cap chan div 512)
     = Some (floorlog 2 (nat (abs_diff_sum fmt samples def i ?cap chan div 512)) - 1)"
    by (intro bits_required_nonneg abs_diff_sum_div_range block_cap_le)
  have ch: "encode_channel fmt samples def bprl i ?cap chan st
           = do {
               (output1, cur1) \<leftarrow> put_number (fst st) (snd st) (u8 bprl)
                 (int (block_rice_len fmt samples def i ?cap chan));
               encode_samples fmt samples def i ?cap chan
                 (block_rice_len fmt samples def i ?cap chan) 0 0 (output1, cur1)
             }"
    by (simp add: encode_channel_def r)
  have len: "\<forall>out n. btw_encode fmt (Some samples) (Some def) out_len = Returned (out, n) \<longrightarrow>
           n = (160 + stream_bits fmt samples def (bits_per_rice_len def) 0 + 7) div 8"
    using btw_encode_Returned(2) by blast
  from r b ch len show ?thesis
    unfolding block_rice_len_def by simp
qed

lemma encode_1024:
  "\<exists>out. btw_encode BTW_S16 (Some [1024]) (Some def_short) (Some 0) = Returned (out, 85)"
  unfolding def_short_def
  by (simp add: codec_eval cong: bind_weak_cong let_weak_cong)

theorem rice_len_uses_block_size_witness:
  "encode_rice_len BTW_S16 [1024] def_short 0 (block_cap def_short 0) 0
     = bits_required (abs_diff_sum BTW_S16 [1024] def_short 0 (block_cap def_short 0) 0 div 512)
   \<and> bits_required (abs_diff_sum BTW_S16 [1024] def_short 0 (block_cap def_short 0) 0 div 512)
     = Some 1
   \<and> block_cap def_short 0 = 1
   \<and> abs_diff_sum BTW_S16 [1024] def_short 0 (block_cap def_short 0) 0 = 1024
   \<and> encode_channel BTW_S16 [1024] def_short 4 0 (block_cap def_short 0) 0 (replicate 90 0, (20, 0))
     = do {
         (output1, cur1) \<leftarrow> put_number (replicate 90 0) (20, 0) (u8 4) 1;
         encode_samples BTW_S16 [1024] def_short 0 (block_cap def_short 0) 0 1 0 0 (output1, cur1)
       }
   \<and> (\<exists>out. btw_encode BTW_S16 (Some [1024]) (Some def_short) (Some 0) = Returned (out, 85)
         \<and> 85 = (160 + stream_bits BTW_S16 [1024] def_short (bits_per_rice_len def_short) 0 + 7) div 8)"
proof -
  have cap: "block_cap def_short 0 = Suc 0"
    by (simp add: block_cap_def def_short_def BTW_BLOCK_SIZE_def)
  have s: "abs_diff_sum BTW_S16 [1024] def_short 0 (Suc 0) 0 = 1024"
    by (simp add: abs_diff_sum_def block_diff_def block_sample_def sample_index_def u64_def
        fmt_value_def def_short_def)
  have f: "floorlog 2 2 = 2"
    by (simp add: compute_floorlog)
  have hyps: "0 < unat (sample_count def_short)" "0 < unat (channels def_short)"
    "length [1024 :: int] = unat (sample_count def_short) * unat (channels def_short)"
    by (simp_all add: def_short_def)
  from encode_1024 obtain out where
    enc: "btw_encode BTW_S16 (Some [1024]) (Some def_short) (Some 0) = Returned (out, 85)"
    by blast
  from rice_len_uses_block_size [OF hyps, of BTW_S16 4 "(replicate 90 0, (20, 0))" "Some 0"] enc
  show ?thesis
    by (simp add: cap s f)
qed

subsection \<open>Block boundaries\<close>

lemma fst_less_of_bitpos:
  "bitpos cur + 1 \<le> 8 * n \<Longrightarrow> fst cur < n"
  by (cases cur) (simp add: bitpos_def)

lemma put_bit_zero:
  assumes "snd cur < 8" "fst cur < length out"
  shows "put_bit out cur 0 = Some (out, advance cur 1)"
proof -
  obtain p b where cur: "cur = (p, b)"
    by (cases cur)
  with assms show ?thesis
    by (simp add: put_bit_eq)
qed

lemma put_ones_none: "put_ones out cur 0 = Some (out, cur)"
  by (cases cur) (simp add: put_ones_def)

lemma put_number_width0: "put_number out cur 0 x = Some (out, cur)"
  by (cases cur) (simp add: put_number_def)

lemma put_number_zero:
  assumes "snd cur < 8" "n \<le> 8" "bitpos cur + n \<le> 8 * length out"
  shows "put_number out cur n 0 = Some (out, advance cur n)"
proof -
  obtain p b where cur: "cur = (p, b)"
    by (cases cur)
  from assms(1) have b: "b < 8"
    by (simp add: cur)
  from assms(3) have fits: "8 * p + b + n \<le> 8 * length out"
    by (simp add: cur bitpos_def)
  show ?thesis
  proof (cases "n = 0")
    case True
    with b show ?thesis
      by (simp add: cur put_number_width0 advance_0)
  next
    case n0: False
    with fits have p: "p < length out"
      by simp
    show ?thesis
    proof (cases "8 - b < n")
      case False
      with b have small: "b + n \<le> 8"
        by arith
      have adv: "advance (p, b) n = (p + (if (b + n) mod 8 = 0 then 1 else 0), (b + n) mod 8)"
      proof (cases "b + n = 8")
        case True
        then show ?thesis
          by (simp add: advance_bytes)
      next
        case False
        with small have "b + n < 8"
          by simp
        with n0 show ?thesis
          by (simp add: advance_bytes)
      qed
      from False n0 p show ?thesis
        by (simp add: cur put_number_def adv)
    next
      case True
      define r where "r = n - (8 - b)"
      from True assms(2) b have r: "0 < r" "r < 8" "n = (8 - b) + r"
        by (simp_all add: r_def)
      from fits r b have p1: "p + 1 < length out"
        by simp
      have adv: "advance (p, b) (8 - b + r) = (Suc p, r)"
        using r b by (simp add: advance_bytes)
      have loop: "put_number_loop out (Suc p) r 0 = Some (out, Suc p, r, 0)"
        using r by (subst put_number_loop.simps) simp
      from True p p1 r show ?thesis
        by (simp add: cur put_number_def r_def [symmetric] loop adv)
    qed
  qed
qed

lemma encode_samples_zeros:
  assumes "\<And>k. l \<le> k \<Longrightarrow> k < cap \<Longrightarrow> sample_at fmt samples def (i + k) chan = Some 0"
    and "snd cur < 8" "bitpos cur + 2 * (cap - l) \<le> 8 * length out"
  shows "encode_samples fmt samples def i cap chan 0 l 0 (out, cur)
           = Some (out, advance cur (2 * (cap - l)))"
  using assms
proof (induction "cap - l" arbitrary: l cur)
  case 0
  then show ?case
    by (simp add: encode_samples.simps advance_0)
next
  case (Suc n)
  then have lt: "l < cap"
    by simp
  from Suc.prems(3) lt have room: "bitpos cur + 2 \<le> 8 * length out"
    by simp
  then have p0: "fst cur < length out"
    by (intro fst_less_of_bitpos) simp
  have c1: "snd (advance cur 1) < 8"
    by (rule snd_advance_less)
  from room have p1: "fst (advance cur 1) < length out"
    by (intro fst_less_of_bitpos) (simp add: bitpos_advance)
  have b1: "put_bit out cur 0 = Some (out, advance cur (Suc 0))"
    using put_bit_zero [OF Suc.prems(2) p0] by simp
  have b2: "put_bit out (advance cur (Suc 0)) 0 = Some (out, advance cur 2)"
    using put_bit_zero [OF c1 p1] unfolding advance_advance one_add_one by simp
  have n: "n = cap - (l + 1)"
    using Suc.hyps(2) by simp
  have "encode_samples fmt samples def i cap chan 0 (l + 1) 0 (out, advance cur 2)
              = Some (out, advance (advance cur 2) (2 * (cap - (l + 1))))"
  proof (rule Suc.hyps(1) [OF n])
    show "sample_at fmt samples def (i + k) chan = Some 0" if "l + 1 \<le> k" "k < cap" for k
      using that by (intro Suc.prems(1)) simp_all
    show "snd (advance cur 2) < 8"
      by (rule snd_advance_less)
    show "bitpos (advance cur 2) + 2 * (cap - (l + 1)) \<le> 8 * length out"
      using Suc.prems(3) lt by (simp add: bitpos_advance)
  qed
  then have IH: "encode_samples fmt samples def i cap chan 0 (Suc l) 0 (out, advance cur 2)
              = Some (out, advance (advance cur 2) (2 * (cap - Suc l)))"
    by simp
  have total: "Suc (Suc (2 * (cap - Suc l))) = 2 * (cap - l)"
    using lt by simp
  have s: "sample_at fmt samples def (i + l) chan = Some 0"
    using lt by (intro Suc.prems(1)) simp_all
  show ?case
    using lt
    by (subst encode_samples.simps)
      (simp add: s s64_def BTW_abs_def u64_def u32_def u8_def b1 put_ones_none b2
        put_number_width0 IH advance_advance total)
qed

lemma block_rice_len_zeros:
  assumes "\<And>k. k < cap \<Longrightarrow> sample_at fmt samples def (i + k) chan = Some 0"
  shows "block_rice_len fmt samples def i cap chan = 0"
proof -
  have z: "block_sample fmt samples def i chan k = 0" if "k < cap" for k
    using assms [OF that] by (simp add: sample_at_def block_sample_def Let_def split: if_splits)
  have "block_diff fmt samples def i chan k = 0" if "k < cap" for k
    using that z [of k] z [of "k - 1"] by (simp add: block_diff_def)
  then have "abs_diff_sum fmt samples def i cap chan = 0"
    by (simp add: abs_diff_sum_def)
  then show ?thesis
    by (simp add: block_rice_len_def floorlog_def)
qed

lemma encode_channel_zeros:
  assumes "\<And>k. k < cap \<Longrightarrow> sample_at fmt samples def (i + k) chan = Some 0"
    and "snd cur < 8" "bitpos cur + bprl + 2 * cap \<le> 8 * length out" "bprl \<le> 8" "cap \<le> 512"
  shows "encode_channel fmt samples def bprl i cap chan (out, cur)
           = Some (out, advance cur (bprl + 2 * cap))"
proof -
  have valid: "\<forall>k<cap. sample_index def (i + k) chan < length samples"
  proof (intro allI impI)
    fix k
    assume "k < cap"
    from assms(1) [OF this] show "sample_index def (i + k) chan < length samples"
      by (simp add: sample_at_def Let_def split: if_splits)
  qed
  have r: "encode_rice_len fmt samples def i cap chan = Some 0"
    using valid block_rice_len_zeros [of cap fmt samples "def" i chan] assms(1)
    by (simp add: encode_rice_len_eq [OF assms(5)])
  have p: "put_number out cur bprl 0 = Some (out, advance cur bprl)"
    using assms(3) by (intro put_number_zero assms(2,4)) simp
  have s: "encode_samples fmt samples def i cap chan 0 0 0 (out, advance cur bprl)
             = Some (out, advance (advance cur bprl) (2 * (cap - 0)))"
    using assms(1,3) by (intro encode_samples_zeros) (simp_all add: snd_advance_less bitpos_advance)
  from assms(4) have "u8 bprl = bprl"
    by (intro u8_id) simp
  then show ?thesis
    by (simp add: encode_channel_def r p s advance_advance)
qed

lemma fst_advance_ge: "fst cur \<le> fst (advance cur n)"
  by (cases cur) (simp add: advance_def bitpos_def)

lemma grab_bit_zero:
  assumes "snd cur < 8" "fst cur < length data" "data ! fst cur = 0"
  shows "grab_bit data cur = Some (0, advance cur 1)"
proof -
  obtain p b where cur: "cur = (p, b)"
    by (cases cur)
  from assms(1) have b: "b < 8"
    by (simp add: cur)
  have adv: "advance (p, b) 1 = (p + (if (b + 1) mod 8 = 0 then 1 else 0), (b + 1) mod 8)"
  proof (cases "b + 1 = 8")
    case True
    then show ?thesis
      by (simp add: advance_bytes)
  next
    case False
    with b have "b + 1 < 8"
      by simp
    then show ?thesis
      by (simp add: advance_bytes)
  qed
  from assms(2,3) show ?thesis
    unfolding cur adv by (simp add: grab_bit_def)
qed

lemma grab_number_width0: "grab_number data cur 0 = Some (0, cur)"
  by (cases cur) (simp add: grab_number_def)

lemma shl_int_0: "shl_int 0 n = 0"
  by (simp add: shl_int_def)

lemma grab_number_zero:
  assumes "snd cur < 8" "n \<le> 8" "bitpos cur + n \<le> 8 * hi" "hi \<le> length data"
    and zero: "\<And>q. fst cur \<le> q \<Longrightarrow> q < hi \<Longrightarrow> data ! q = 0"
  shows "grab_number data cur n = Some (0, advance cur n)"
proof -
  obtain p b where cur: "cur = (p, b)"
    by (cases cur)
  from assms(1) have b: "b < 8"
    by (simp add: cur)
  from assms(3) have fits: "8 * p + b + n \<le> 8 * hi"
    by (simp add: cur bitpos_def)
  show ?thesis
  proof (cases "n = 0")
    case True
    with b show ?thesis
      by (simp add: cur grab_number_width0 advance_0)
  next
    case n0: False
    with fits have "p < hi"
      by simp
    with assms(4) zero [of p] have p: "p < length data" "data ! p = 0"
      by (simp_all add: cur)
    show ?thesis
    proof (cases "8 - b < n")
      case False
      with b have small: "b + n \<le> 8"
        by arith
      have adv: "advance (p, b) n = (p + (if (b + n) mod 8 = 0 then 1 else 0), (b + n) mod 8)"
      proof (cases "b + n = 8")
        case True
        then show ?thesis
          by (simp add: advance_bytes)
      next
        case False
        with small have "b + n < 8"
          by simp
        with n0 show ?thesis
          by (simp add: advance_bytes)
      qed
      from False n0 p show ?thesis
        by (simp add: cur grab_number_def adv shl_int_0)
    next
      case True
      define r where "r = n - (8 - b)"
      from True assms(2) b have r: "0 < r" "r < 8" "n = (8 - b) + r"
        by (simp_all add: r_def)
      from fits r b have "Suc p < hi"
        by simp
      with assms(4) zero [of "Suc p"] have p1: "Suc p < length data" "data ! Suc p = 0"
        by (simp_all add: cur)
      have adv: "advance (p, b) (8 - b + r) = (Suc p, r)"
        using r b by (simp add: advance_bytes)
      have loop: "grab_number_loop data (Suc p) r (8 - b) 0 = Some (Suc p, r, 8 - b, 0)"
        using r by (subst grab_number_loop.simps) simp
      from True p p1 r show ?thesis
        by (simp add: cur grab_number_def r_def [symmetric] loop adv shl_int_0)
    qed
  qed
qed

lemma decode_unary_zero:
  assumes "snd cur < 8" "fst cur < length data" "data ! fst cur = 0"
  shows "decode_unary data cur r d = Some (d, advance cur 1)"
  by (subst decode_unary.simps) (simp add: grab_bit_zero [OF assms])

lemma fmt_value_0: "fmt_value fmt 0 = 0"
  by (cases fmt) (simp_all add: fmt_value_def)

lemma decode_samples_zeros:
  assumes zero: "\<And>q. lo \<le> q \<Longrightarrow> q < hi \<Longrightarrow> data ! q = 0"
    and "lo \<le> fst cur" "hi \<le> length data" "snd cur < 8"
    and "bitpos cur + 2 * (cap - j) \<le> 8 * hi"
    and idx: "\<And>l. j \<le> l \<Longrightarrow> l < cap \<Longrightarrow> sample_index def (i + l) chan < length outp"
    and "k + (cap - j) < 2 ^ 64"
  shows "\<exists>outp'. decode_samples fmt data def i cap chan 0 j 0 (outp, k, cur)
                    = Some (outp', k + (cap - j), advance cur (2 * (cap - j)))
           \<and> length outp' = length outp
           \<and> (\<forall>m<length outp. outp' ! m = Some 0 \<or> outp' ! m = outp ! m)
           \<and> (\<forall>l. j \<le> l \<and> l < cap \<longrightarrow> outp' ! sample_index def (i + l) chan = Some 0)"
  using assms(2,4,5,6,7)
proof (induction "cap - j" arbitrary: j cur outp k)
  case 0
  then have "cap \<le> j"
    by simp
  with 0 show ?case
    by (auto simp: decode_samples.simps advance_0)
next
  case (Suc n)
  then have lt: "j < cap"
    by simp
  let ?idx = "sample_index def (i + j) chan"
  from Suc.prems(3) lt have room: "bitpos cur + 2 \<le> 8 * hi"
    by simp
  then have "fst cur < hi"
    by (intro fst_less_of_bitpos) simp
  with assms(3) zero [OF Suc.prems(1)] have p0: "fst cur < length data" "data ! fst cur = 0"
    by simp_all
  have c1: "snd (advance cur (Suc 0)) < 8"
    by (rule snd_advance_less)
  from room have "fst (advance cur (Suc 0)) < hi"
    by (intro fst_less_of_bitpos) (simp add: bitpos_advance)
  moreover have "lo \<le> fst (advance cur (Suc 0))"
    using Suc.prems(1) fst_advance_ge [of cur "Suc 0"] by simp
  ultimately have p1: "fst (advance cur (Suc 0)) < length data" "data ! fst (advance cur (Suc 0)) = 0"
    using assms(3) zero by simp_all
  have g1: "grab_bit data cur = Some (0, advance cur (Suc 0))"
    using grab_bit_zero [OF Suc.prems(2) p0] by simp
  have g2: "decode_unary data (advance cur (Suc 0)) 0 0 = Some (0, advance cur 2)"
    using decode_unary_zero [OF c1 p1, of 0 0] unfolding advance_advance
    by (simp add: numeral_2_eq_2)
  have n: "n = cap - Suc j"
    using Suc.hyps(2) by simp
  have i0: "?idx < length outp"
    using lt by (intro Suc.prems(4)) simp_all
  have k1: "u64 (Suc k) = Suc k"
    using Suc.prems(5) lt by (intro u64_id) simp
  have "\<exists>outp'. decode_samples fmt data def i cap chan 0 (Suc j) 0
                    (outp[?idx := Some 0], Suc k, advance cur 2)
                    = Some (outp', Suc k + (cap - Suc j), advance (advance cur 2) (2 * (cap - Suc j)))
           \<and> length outp' = length (outp[?idx := Some 0])
           \<and> (\<forall>m<length (outp[?idx := Some 0]). outp' ! m = Some 0 \<or> outp' ! m = outp[?idx := Some 0] ! m)
           \<and> (\<forall>l. Suc j \<le> l \<and> l < cap \<longrightarrow> outp' ! sample_index def (i + l) chan = Some 0)"
  proof (rule Suc.hyps(1) [OF n])
    show "lo \<le> fst (advance cur 2)"
      using Suc.prems(1) fst_advance_ge [of cur 2] by simp
    show "snd (advance cur 2) < 8"
      by (rule snd_advance_less)
    show "bitpos (advance cur 2) + 2 * (cap - Suc j) \<le> 8 * hi"
      using Suc.prems(3) lt by (simp add: bitpos_advance)
    show "sample_index def (i + l) chan < length (outp[?idx := Some 0])" if "Suc j \<le> l" "l < cap" for l
      using that Suc.prems(4) [of l] by simp
    show "Suc k + (cap - Suc j) < 2 ^ 64"
      using Suc.prems(5) lt by simp
  qed
  then obtain outp' where
    run: "decode_samples fmt data def i cap chan 0 (Suc j) 0 (outp[?idx := Some 0], Suc k, advance cur 2)
            = Some (outp', Suc k + (cap - Suc j), advance (advance cur 2) (2 * (cap - Suc j)))"
    and len: "length outp' = length outp"
    and old: "\<forall>m<length outp. outp' ! m = Some 0 \<or> outp' ! m = outp[?idx := Some 0] ! m"
    and new: "\<forall>l. Suc j \<le> l \<and> l < cap \<longrightarrow> outp' ! sample_index def (i + l) chan = Some 0"
    by auto
  have total: "Suc (Suc (2 * (cap - Suc j))) = 2 * (cap - j)" "Suc (k + (cap - Suc j)) = k + (cap - j)"
    using lt by simp_all
  have step: "decode_samples fmt data def i cap chan 0 j 0 (outp, k, cur)
                = Some (outp', k + (cap - j), advance cur (2 * (cap - j)))"
    using lt i0
    by (subst decode_samples.simps)
      (simp add: g1 g2 grab_number_width0 s64_def fmt_value_0 k1 run advance_advance total)
  have old': "\<forall>m<length outp. outp' ! m = Some 0 \<or> outp' ! m = outp ! m"
  proof (intro allI impI)
    fix m
    assume m: "m < length outp"
    with old have "outp' ! m = Some 0 \<or> outp' ! m = outp[?idx := Some 0] ! m"
      by simp
    then show "outp' ! m = Some 0 \<or> outp' ! m = outp ! m"
      using m by (cases "m = ?idx") simp_all
  qed
  have new': "\<forall>l. j \<le> l \<and> l < cap \<longrightarrow> outp' ! sample_index def (i + l) chan = Some 0"
  proof (intro allI impI)
    fix l
    assume l: "j \<le> l \<and> l < cap"
    show "outp' ! sample_index def (i + l) chan = Some 0"
    proof (cases "l = j")
      case True
      from old i0 have "outp' ! ?idx = Some 0 \<or> outp' ! ?idx = outp[?idx := Some 0] ! ?idx"
        by blast
      with i0 True show ?thesis
        by simp
    next
      case False
      with l new show ?thesis
        by simp
    qed
  qed
  from step len old' new' show ?case
    by blast
qed

lemma encode_channels_zeros:
  assumes "unat (channels def) = 1"
    and "\<And>k. k < cap \<Longrightarrow> sample_at fmt samples def (i + k) 0 = Some 0"
    and "snd cur < 8" "bitpos cur + bprl + 2 * cap \<le> 8 * length out" "bprl \<le> 8" "cap \<le> 512"
  shows "encode_channels fmt samples def bprl i cap 0 (out, cur)
           = Some (out, advance cur (bprl + 2 * cap))"
proof -
  have "encode_channels fmt samples def bprl i cap (Suc 0) (out, advance cur (bprl + 2 * cap))
          = Some (out, advance cur (bprl + 2 * cap))"
    by (subst encode_channels.simps) (simp add: assms(1))
  then show ?thesis
    by (subst encode_channels.simps)
      (simp add: assms(1) encode_channel_zeros [OF assms(2-6)])
qed

lemma record_bits_zeros:
  assumes "\<And>k. k < cap \<Longrightarrow> sample_at fmt samples def (i + k) chan = Some 0"
  shows "record_bits fmt samples def bprl i cap chan = bprl + 2 * cap"
proof -
  have z: "block_sample fmt samples def i chan k = 0" if "k < cap" for k
    using assms [OF that] by (simp add: sample_at_def block_sample_def Let_def split: if_splits)
  have d: "block_diff fmt samples def i chan k = 0" if "k < cap" for k
    using that z [of k] z [of "k - 1"] by (simp add: block_diff_def)
  have "(\<Sum>l<cap. codeword_bits (block_rice_len fmt samples def i cap chan)
                   (block_diff fmt samples def i chan l)) = (\<Sum>l<cap. 2)"
    by (rule sum.cong) (simp_all add: d block_rice_len_zeros [OF assms] codeword_bits_def)
  then show ?thesis
    by (simp add: record_bits_def)
qed

lemma decode_channels_zeros:
  assumes "unat (channels def) = 1"
    and zero: "\<And>q. lo \<le> q \<Longrightarrow> q < hi \<Longrightarrow> data ! q = 0"
    and "lo \<le> fst cur" "hi \<le> length data" "snd cur < 8" "bprl \<le> 8"
    and "bitpos cur + bprl + 2 * cap \<le> 8 * hi"
    and idx: "\<And>l. l < cap \<Longrightarrow> sample_index def (i + l) 0 < length outp"
    and "k + cap < 2 ^ 64"
  shows "\<exists>outp'. decode_channels fmt data def bprl i cap 0 (outp, k, cur)
                    = Some (outp', k + cap, advance cur (bprl + 2 * cap))
           \<and> length outp' = length outp
           \<and> (\<forall>m<length outp. outp' ! m = Some 0 \<or> outp' ! m = outp ! m)
           \<and> (\<forall>l<cap. outp' ! sample_index def (i + l) 0 = Some 0)"
proof -
  have g: "grab_number data cur bprl = Some (0, advance cur bprl)"
  proof (rule grab_number_zero [OF assms(5,6) _ assms(4)])
    show "bitpos cur + bprl \<le> 8 * hi"
      using assms(7) by simp
    show "data ! q = 0" if "fst cur \<le> q" "q < hi" for q
      using that assms(3) by (intro zero) simp_all
  qed
  have "\<exists>outp'. decode_samples fmt data def i cap 0 0 0 0 (outp, k, advance cur bprl)
                    = Some (outp', k + (cap - 0), advance (advance cur bprl) (2 * (cap - 0)))
           \<and> length outp' = length outp
           \<and> (\<forall>m<length outp. outp' ! m = Some 0 \<or> outp' ! m = outp ! m)
           \<and> (\<forall>l. 0 \<le> l \<and> l < cap \<longrightarrow> outp' ! sample_index def (i + l) 0 = Some 0)"
  proof (rule decode_samples_zeros [OF zero _ assms(4)])
    show "lo \<le> fst (advance cur bprl)"
      using assms(3) fst_advance_ge [of cur bprl] by simp
    show "snd (advance cur bprl) < 8"
      by (rule snd_advance_less)
    show "bitpos (advance cur bprl) + 2 * (cap - 0) \<le> 8 * hi"
      using assms(7) by (simp add: bitpos_advance)
    show "sample_index def (i + l) 0 < length outp" if "l < cap" for l
      by (rule idx [OF that])
    show "k + (cap - 0) < 2 ^ 64"
      using assms(9) by simp
  qed simp_all
  then obtain outp' where
    run: "decode_samples fmt data def i cap 0 0 0 0 (outp, k, advance cur bprl)
            = Some (outp', k + cap, advance cur (bprl + 2 * cap))"
    and rest: "length outp' = length outp"
      "\<forall>m<length outp. outp' ! m = Some 0 \<or> outp' ! m = outp ! m"
      "\<forall>l<cap. outp' ! sample_index def (i + l) 0 = Some 0"
    by (auto simp: advance_advance)
  have "decode_channels fmt data def bprl i cap (Suc 0) (outp', k + cap, advance cur (bprl + 2 * cap))
          = Some (outp', k + cap, advance cur (bprl + 2 * cap))"
    by (subst decode_channels.simps) (simp add: assms(1))
  then have "decode_channels fmt data def bprl i cap 0 (outp, k, cur)
          = Some (outp', k + cap, advance cur (bprl + 2 * cap))"
    by (subst decode_channels.simps) (simp add: assms(1) g run)
  with rest show ?thesis
    by blast
qed

lemma decode_blocks_step:
  assumes "decode_blocks fmt data def bprl i (outp, k, cur) = Some st'"
    and "i < unat (sample_count def)" "snd cur < 8"
  shows "\<exists>outp1 k1 cur1.
           decode_channels fmt data def bprl i (block_cap def i) 0 (outp, k, cur)
             = Some (outp1, k1, cur1)
           \<and> decode_blocks fmt data def bprl (i + block_cap def i)
               (outp1, k1, ((bitpos cur1 + 7) div 8, 0)) = Some st'"
proof -
  from assms(1,2) obtain o1 k1 p b where
    ch: "decode_channels fmt data def bprl i (block_cap def i) 0 (outp, k, cur) = Some (o1, k1, (p, b))"
    and rest: "decode_blocks fmt data def bprl (i + block_cap def i)
                 (o1, k1, (p + (if b \<noteq> 0 then 1 else 0), 0)) = Some st'"
    by (simp only: decode_blocks.simps [of _ _ _ _ i])
      (auto simp: decode_block_def decode_align_def bind_eq_Some_conv)
  from decode_channels_snd [OF ch assms(3)] have "b < 8"
    by simp
  from ceil8 [OF this, of p] have "(bitpos (p, b) + 7) div 8 = p + (if b \<noteq> 0 then 1 else 0)"
    by (simp add: bitpos_def)
  with ch rest show ?thesis
    by auto
qed

lemma btw_decode_ReturnedD:
  assumes "btw_decode fmt (Some data) def out_len = Returned (Some d, Some (outp, k))"
  shows "\<exists>cur'. decode_blocks fmt data d (bits_per_rice_len d) 0
                   (replicate (decode_alloc fmt d) None, 0, (20, 0)) = Some (outp, k, cur')"
    and "0 < unat (sample_count d)"
proof -
  have b: "bits_required (uint (bits_per_sample d)) = Some (bits_per_rice_len d)"
    using bits_per_rice_len_less [of "bits_per_sample d"] by (simp add: bits_per_rice_len_def)
  from assms have nz: "sample_count d \<noteq> 0"
    by (auto simp: btw_decode_def split: option.splits if_splits)
  then show "0 < unat (sample_count d)"
    by (simp add: unat_gt_0)
  from assms show "\<exists>cur'. decode_blocks fmt data d (bits_per_rice_len d) 0
                   (replicate (decode_alloc fmt d) None, 0, (20, 0)) = Some (outp, k, cur')"
    by (auto simp: btw_decode_def b Let_def split: option.splits if_splits)
qed

text \<open>
  Claim C2. The encoder never pads between blocks: the length that \<^verbatim>\<open>btw_encode\<close> returns is
  the 160 bits of the header plus the bits of all block records, rounded up to bytes once,
  at the end. The decoder does: what \<^verbatim>\<open>btw_decode\<close> returns is what the loop over the
  blocks gives when, after the last channel of the first block, it goes on at the next byte
  boundary; and from every state of the loop with frames left, \<open>decode_blocks\<close> reads the
  channels of the block and goes on with the next block at the next byte boundary, so a
  partly read byte is skipped.
\<close>

theorem block_boundary_alignment:
  assumes "btw_encode fmt (Some samples) (Some def) out_len = Returned (out, n)"
    and "btw_decode fmt' (Some data) def0 n0 = Returned (Some d, Some (outp, k))"
    and "decode_blocks fmt'' data' def' bprl i (outp0, k0, cur) = Some st'"
    and "i < unat (sample_count def')" "snd cur < 8"
  shows "n = (160 + stream_bits fmt samples def (bits_per_rice_len def) 0 + 7) div 8
    \<and> (\<exists>outp1 k1 cur1 cur'.
          decode_channels fmt' data d (bits_per_rice_len d) 0 (block_cap d 0) 0
            (replicate (decode_alloc fmt' d) None, 0, (20, 0)) = Some (outp1, k1, cur1)
          \<and> decode_blocks fmt' data d (bits_per_rice_len d) (block_cap d 0)
              (outp1, k1, ((bitpos cur1 + 7) div 8, 0)) = Some (outp, k, cur'))
    \<and> (\<exists>outp1 k1 cur1.
          decode_channels fmt'' data' def' bprl i (block_cap def' i) 0 (outp0, k0, cur)
            = Some (outp1, k1, cur1)
          \<and> decode_blocks fmt'' data' def' bprl (i + block_cap def' i)
              (outp1, k1, ((bitpos cur1 + 7) div 8, 0)) = Some st')"
proof -
  from btw_decode_ReturnedD [OF assms(2)] obtain cur' where
    run: "decode_blocks fmt' data d (bits_per_rice_len d) 0
            (replicate (decode_alloc fmt' d) None, 0, (20, 0)) = Some (outp, k, cur')"
    and pos: "0 < unat (sample_count d)"
    by blast
  have "\<exists>outp1 k1 cur1.
          decode_channels fmt' data d (bits_per_rice_len d) 0 (block_cap d 0) 0
            (replicate (decode_alloc fmt' d) None, 0, (20, 0)) = Some (outp1, k1, cur1)
          \<and> decode_blocks fmt' data d (bits_per_rice_len d) (0 + block_cap d 0)
              (outp1, k1, ((bitpos cur1 + 7) div 8, 0)) = Some (outp, k, cur')"
    by (rule decode_blocks_step [OF run pos]) simp
  then have first: "\<exists>outp1 k1 cur1 cur'.
          decode_channels fmt' data d (bits_per_rice_len d) 0 (block_cap d 0) 0
            (replicate (decode_alloc fmt' d) None, 0, (20, 0)) = Some (outp1, k1, cur1)
          \<and> decode_blocks fmt' data d (bits_per_rice_len d) (block_cap d 0)
              (outp1, k1, ((bitpos cur1 + 7) div 8, 0)) = Some (outp, k, cur')"
    by auto
  from btw_encode_Returned(2) [OF assms(1)] first decode_blocks_step [OF assms(3-5)]
  show ?thesis
    by blast
qed

lemma sample_at_zeros:
  assumes "unat (channels def) = 1" "f < n" "n < 2 ^ 64"
  shows "sample_at fmt (replicate n 0) def f 0 = Some 0"
proof -
  from assms(2,3) have "u64 f = f"
    by (intro u64_id) simp
  with assms(1,2) show ?thesis
    by (simp add: sample_at_def sample_index_def fmt_value_0)
qed

lemma block_cap_515: "block_cap def_515 0 = 512" "block_cap def_515 512 = 3"
  by (simp_all add: block_cap_def def_515_def BTW_BLOCK_SIZE_def)

lemma encode_header_515:
  "\<exists>o1. encode_header (replicate 2054 0) def_515 = Some (o1, (20, 0)) \<and> length o1 = 2054"
  unfolding def_515_def
  by (simp add: codec_eval cong: bind_weak_cong let_weak_cong)

lemma encode_515:
  "\<exists>out. btw_encode BTW_S16 (Some (replicate 515 0)) (Some def_515) (Some 0) = Returned (out, 150)"
proof -
  have ch: "unat (channels def_515) = 1" and sc: "unat (sample_count def_515) = 515"
    by (simp_all add: def_515_def)
  have m: "max_len def_515 = 2054"
    by (simp add: max_len_def def_515_def)
  have b: "bits_required (uint (bits_per_sample def_515)) = Some 4"
    by (simp add: def_515_def bits_required_def bits_required_loop.simps Let_def)
  from encode_header_515 obtain o1 where
    hdr: "encode_header (replicate 2054 0) def_515 = Some (o1, (20, 0))" and len: "length o1 = 2054"
    by blast
  have b0: "encode_channels BTW_S16 (replicate 515 0) def_515 4 0 512 0 (o1, (20, 0))
              = Some (o1, advance (20, 0) (4 + 2 * 512))"
    by (rule encode_channels_zeros [OF ch])
      (simp_all add: sample_at_zeros [OF ch] len bitpos_def)
  have a0: "advance (20, 0) (4 + 2 * 512) = (148, 4)"
    by (simp add: advance_bytes)
  have b1: "encode_channels BTW_S16 (replicate 515 0) def_515 4 512 3 0 (o1, (148, 4))
              = Some (o1, advance (148, 4) (4 + 2 * 3))"
    by (rule encode_channels_zeros [OF ch])
      (simp_all add: sample_at_zeros [OF ch] len bitpos_def)
  have a1: "advance (148, 4) (4 + 2 * 3) = (149, 6)"
    by (simp add: advance_bytes)
  have e2: "encode_blocks BTW_S16 (replicate 515 0) def_515 4 515 (o1, (149, 6)) = Some (o1, (149, 6))"
    by (subst encode_blocks.simps) (simp add: sc)
  have e1: "encode_blocks BTW_S16 (replicate 515 0) def_515 4 512 (o1, (148, 4)) = Some (o1, (149, 6))"
    using b1 e2 unfolding a1 by (subst encode_blocks.simps) (simp add: sc block_cap_515)
  have e0: "encode_blocks BTW_S16 (replicate 515 0) def_515 4 0 (o1, (20, 0)) = Some (o1, (149, 6))"
    using b0 e1 unfolding a0 by (subst encode_blocks.simps) (simp add: sc block_cap_515)
  have "btw_encode BTW_S16 (Some (replicate 515 0)) (Some def_515) (Some 0) = Returned (o1, 150)"
    by (simp add: btw_encode_def b m hdr e0) (simp add: def_515_def)
  then show ?thesis ..
qed

lemma stream_bits_515:
  "stream_bits BTW_S16 (replicate 515 0) def_515 (bits_per_rice_len def_515) 0 = 1038"
proof -
  have ch: "unat (channels def_515) = 1" and sc: "unat (sample_count def_515) = 515"
    by (simp_all add: def_515_def)
  have b: "bits_per_rice_len def_515 = 4"
    by (simp add: bits_per_rice_len_def def_515_def compute_floorlog)
  have r0: "record_bits BTW_S16 (replicate 515 0) def_515 4 0 512 0 = 4 + 2 * 512"
    by (rule record_bits_zeros) (simp add: sample_at_zeros [OF ch])
  have r1: "record_bits BTW_S16 (replicate 515 0) def_515 4 512 3 0 = 4 + 2 * 3"
    by (rule record_bits_zeros) (simp add: sample_at_zeros [OF ch])
  have s2: "stream_bits BTW_S16 (replicate 515 0) def_515 4 515 = 0"
    by (subst stream_bits.simps) (simp add: sc)
  have s1: "stream_bits BTW_S16 (replicate 515 0) def_515 4 512 = 10"
    by (subst stream_bits.simps) (simp add: sc ch block_cap_515 r1 s2)
  have "stream_bits BTW_S16 (replicate 515 0) def_515 4 0 = 1038"
    by (subst stream_bits.simps) (simp add: sc ch block_cap_515 r0 s1)
  then show ?thesis
    by (simp add: b)
qed

lemma zeros_515_nth: "20 \<le> q \<Longrightarrow> q < 151 \<Longrightarrow> zeros_515 ! q = 0"
  by (simp add: zeros_515_def nth_append)

lemma sample_index_515: "f < 515 \<Longrightarrow> sample_index def_515 f 0 = f"
  by (simp add: sample_index_def def_515_def u64_id)

lemma decode_blocks_zeros_515:
  "\<exists>outp1. decode_channels BTW_S16 zeros_515 def_515 4 0 512 0 (replicate 515 None, 0, (20, 0))
              = Some (outp1, 512, (148, 4))
     \<and> decode_blocks BTW_S16 zeros_515 def_515 4 512 (outp1, 512, (149, 0))
              = Some (replicate 515 (Some 0), 515, (151, 0))"
  "decode_blocks BTW_S16 zeros_515 def_515 4 0 (replicate 515 None, 0, (20, 0))
              = Some (replicate 515 (Some 0), 515, (151, 0))"
proof -
  have ch: "unat (channels def_515) = 1" and sc: "unat (sample_count def_515) = 515"
    by (simp_all add: def_515_def)
  have len: "length zeros_515 = 151"
    by (simp add: zeros_515_def)
  have "\<exists>outp'. decode_channels BTW_S16 zeros_515 def_515 4 0 512 0 (replicate 515 None, 0, (20, 0))
                    = Some (outp', 0 + 512, advance (20, 0) (4 + 2 * 512))
           \<and> length outp' = length (replicate 515 (None :: int option))
           \<and> (\<forall>m<length (replicate 515 (None :: int option)).
                 outp' ! m = Some 0 \<or> outp' ! m = replicate 515 None ! m)
           \<and> (\<forall>l<512. outp' ! sample_index def_515 (0 + l) 0 = Some 0)"
    by (rule decode_channels_zeros [OF ch, where lo = 20 and hi = 151])
      (simp_all add: len bitpos_def sample_index_515 zeros_515_nth)
  moreover have a0: "advance (20, 0) (4 + 2 * 512) = (148, 4)"
    by (simp add: advance_bytes)
  ultimately obtain outp1 where
    c0: "decode_channels BTW_S16 zeros_515 def_515 4 0 512 0 (replicate 515 None, 0, (20, 0))
           = Some (outp1, 512, (148, 4))"
    and l1: "length outp1 = 515"
    and z1: "\<forall>l<512. outp1 ! l = Some 0"
    by (auto simp: sample_index_515)
  have "\<exists>outp'. decode_channels BTW_S16 zeros_515 def_515 4 512 3 0 (outp1, 512, (149, 0))
                    = Some (outp', 512 + 3, advance (149, 0) (4 + 2 * 3))
           \<and> length outp' = length outp1
           \<and> (\<forall>m<length outp1. outp' ! m = Some 0 \<or> outp' ! m = outp1 ! m)
           \<and> (\<forall>l<3. outp' ! sample_index def_515 (512 + l) 0 = Some 0)"
    by (rule decode_channels_zeros [OF ch, where lo = 20 and hi = 151])
      (simp_all add: len bitpos_def sample_index_515 l1 zeros_515_nth)
  moreover have a1: "advance (149, 0) (4 + 2 * 3) = (150, 2)"
    by (simp add: advance_bytes)
  ultimately obtain outp2 where
    c1: "decode_channels BTW_S16 zeros_515 def_515 4 512 3 0 (outp1, 512, (149, 0))
           = Some (outp2, 515, (150, 2))"
    and l2: "length outp2 = 515"
    and old: "\<forall>m<515. outp2 ! m = Some 0 \<or> outp2 ! m = outp1 ! m"
    and z2: "\<forall>l<3. outp2 ! (512 + l) = Some 0"
    by (auto simp: sample_index_515 l1)
  have "outp2 ! m = Some 0" if "m < 515" for m
  proof (cases "m < 512")
    case True
    from old that have "outp2 ! m = Some 0 \<or> outp2 ! m = outp1 ! m"
      by blast
    moreover from z1 True have "outp1 ! m = Some 0"
      by blast
    ultimately show ?thesis
      by auto
  next
    case False
    with that have "m - 512 < 3" "m = 512 + (m - 512)"
      by simp_all
    with z2 show ?thesis
      by metis
  qed
  then have o2: "outp2 = replicate 515 (Some 0)"
    by (simp add: list_eq_iff_nth_eq l2)
  have d2: "decode_blocks BTW_S16 zeros_515 def_515 4 515 (outp2, 515, (151, 0))
              = Some (outp2, 515, (151, 0))"
    by (subst decode_blocks.simps) (simp add: sc)
  have d1: "decode_blocks BTW_S16 zeros_515 def_515 4 512 (outp1, 512, (149, 0))
              = Some (outp2, 515, (151, 0))"
    by (subst decode_blocks.simps)
      (simp add: sc block_cap_515 decode_block_def c1 decode_align_def d2)
  have d0: "decode_blocks BTW_S16 zeros_515 def_515 4 0 (replicate 515 None, 0, (20, 0))
              = Some (outp2, 515, (151, 0))"
    by (subst decode_blocks.simps)
      (simp add: sc block_cap_515 decode_block_def c0 decode_align_def d1)
  from c0 d1 show "\<exists>outp1. decode_channels BTW_S16 zeros_515 def_515 4 0 512 0 (replicate 515 None, 0, (20, 0))
              = Some (outp1, 512, (148, 4))
     \<and> decode_blocks BTW_S16 zeros_515 def_515 4 512 (outp1, 512, (149, 0))
              = Some (replicate 515 (Some 0), 515, (151, 0))"
    unfolding o2 by blast
  from d0 show "decode_blocks BTW_S16 zeros_515 def_515 4 0 (replicate 515 None, 0, (20, 0))
              = Some (replicate 515 (Some 0), 515, (151, 0))"
    unfolding o2 .
qed

lemma btw_read_metadata_515:
  "btw_read_metadata (Some zeros_515) (Some zero_def) = Some (Some def_515)"
  unfolding zeros_515_def def_515_def
  by (simp add: codec_eval nth_append cong: bind_weak_cong let_weak_cong)

lemma btw_decode_zeros_515:
  "btw_decode BTW_S16 (Some zeros_515) (Some zero_def) (Some 0)
     = Returned (Some def_515, Some (replicate 515 (Some 0), 515))"
proof -
  have b: "bits_required (uint (bits_per_sample def_515)) = Some 4"
    by (simp add: def_515_def bits_required_def bits_required_loop.simps Let_def)
  have a: "decode_alloc BTW_S16 def_515 = 515"
    by (simp add: decode_alloc_def def_515_def fmt_size_def u64_def)
  show ?thesis
    by (simp add: btw_decode_def btw_read_metadata_515 b a decode_blocks_zeros_515(2))
      (simp add: def_515_def)
qed

theorem block_boundary_alignment_witness:
  "(\<exists>out. btw_encode BTW_S16 (Some (replicate 515 0)) (Some def_515) (Some 0) = Returned (out, 150))
   \<and> (150 = (160 + stream_bits BTW_S16 (replicate 515 0) def_515 (bits_per_rice_len def_515) 0 + 7) div 8
      \<and> (\<exists>outp1 k1 cur1 cur'.
            decode_channels BTW_S16 zeros_515 def_515 (bits_per_rice_len def_515) 0
              (block_cap def_515 0) 0 (replicate (decode_alloc BTW_S16 def_515) None, 0, (20, 0))
              = Some (outp1, k1, cur1)
            \<and> decode_blocks BTW_S16 zeros_515 def_515 (bits_per_rice_len def_515)
                (block_cap def_515 0) (outp1, k1, ((bitpos cur1 + 7) div 8, 0))
              = Some (replicate 515 (Some 0), 515, cur'))
      \<and> (\<exists>outp1 k1 cur1.
            decode_channels BTW_S16 zeros_515 def_515 4 0 (block_cap def_515 0) 0
              (replicate 515 None, 0, (20, 0)) = Some (outp1, k1, cur1)
            \<and> decode_blocks BTW_S16 zeros_515 def_515 4 (0 + block_cap def_515 0)
                (outp1, k1, ((bitpos cur1 + 7) div 8, 0))
              = Some (replicate 515 (Some 0), 515, (151, 0))))
   \<and> stream_bits BTW_S16 (replicate 515 0) def_515 (bits_per_rice_len def_515) 0 = 1038
   \<and> btw_decode BTW_S16 (Some zeros_515) (Some zero_def) (Some 0)
       = Returned (Some def_515, Some (replicate 515 (Some 0), 515))
   \<and> (\<exists>outp1.
         decode_channels BTW_S16 zeros_515 def_515 4 0 512 0 (replicate 515 None, 0, (20, 0))
           = Some (outp1, 512, (148, 4))
         \<and> decode_blocks BTW_S16 zeros_515 def_515 4 512 (outp1, 512, (149, 0))
           = Some (replicate 515 (Some 0), 515, (151, 0)))"
proof -
  from encode_515 obtain out where
    enc: "btw_encode BTW_S16 (Some (replicate 515 0)) (Some def_515) (Some 0) = Returned (out, 150)"
    by blast
  have pos: "0 < unat (sample_count def_515)"
    by (simp add: def_515_def)
  have al: "snd (20 :: nat, 0 :: nat) < 8"
    by simp
  note inst = block_boundary_alignment
    [OF enc btw_decode_zeros_515 decode_blocks_zeros_515(2) pos al]
  from enc have "\<exists>out. btw_encode BTW_S16 (Some (replicate 515 0)) (Some def_515) (Some 0)
      = Returned (out, 150)"
    by blast
  with inst stream_bits_515 btw_decode_zeros_515 decode_blocks_zeros_515(1) show ?thesis
    by blast
qed

subsection \<open>Two blocks\<close>

lemma list_update_append_numeral:
  "(xs @ ys)[numeral k := v]
     = (if numeral k < length xs then xs[numeral k := v] @ ys
        else xs @ ys[numeral k - length xs := v])"
  by (simp add: list_update_append)

lemma replicate_20: "replicate 20 (0 :: byte) = [0, 0, 0, 0, 0, 0, 0, 0, 0, 0, 0, 0, 0, 0, 0, 0, 0, 0, 0, 0]"
  by (simp add: numeral_eq_Suc)

lemma replicate_2050: "replicate 2050 (0 :: byte) = replicate 20 0 @ replicate 2030 0"
  by (simp add: replicate_add [symmetric])

lemma encode_header_513:
  "encode_header ([0, 0, 0, 0, 0, 0, 0, 0, 0, 0, 0, 0, 0, 0, 0, 0, 0, 0, 0, 0] @ replicate 2030 0) def_513
     = Some (header_513 @ replicate 2030 0, (20, 0))"
  unfolding def_513_def header_513_def
  by (simp add: codec_eval nth_append list_update_append_numeral cong: bind_weak_cong let_weak_cong)

lemma encode_block1_513:
  "encode_channels BTW_S16 samples_513 def_513 4 512 1 0 (header_513 @ replicate 2030 0, (148, 4))
     = Some (header_513 @ (replicate 2030 0)[128 := 0, 129 := 2], (149, 3))"
  unfolding samples_513_def def_513_def header_513_def
  apply (simp add: codec_eval nth_append list_update_append_numeral cong: bind_weak_cong let_weak_cong)
  done

lemma take_130_513:
  "take 130 ((replicate 2030 (0 :: byte))[128 := 0, 129 := 2]) = replicate 129 0 @ [2]"
  by (auto simp: list_eq_iff_nth_eq nth_append nth_list_update)

lemma sample_at_513: "f < 512 \<Longrightarrow> sample_at fmt samples_513 def_513 f 0 = Some 0"
  by (simp add: sample_at_def sample_index_def def_513_def samples_513_def u64_id nth_append
      fmt_value_0)

lemma block_cap_513: "block_cap def_513 0 = 512" "block_cap def_513 512 = 1"
  by (simp_all add: block_cap_def def_513_def BTW_BLOCK_SIZE_def)

lemma encoded_stream_513: "encoded_stream BTW_S16 samples_513 def_513 = Returned stream_513"
proof -
  let ?H = "header_513 @ replicate 2030 0"
  let ?X = "header_513 @ (replicate 2030 0)[128 := 0, 129 := 2]"
  have ch: "unat (channels def_513) = 1" and sc: "unat (sample_count def_513) = 513"
    by (simp_all add: def_513_def)
  have m: "max_len def_513 = 2050"
    by (simp add: max_len_def def_513_def)
  have b: "bits_required (uint (bits_per_sample def_513)) = Some 4"
    by (simp add: def_513_def bits_required_def bits_required_loop.simps Let_def)
  have hdr: "encode_header (replicate 2050 0) def_513 = Some (?H, (20, 0))"
    using encode_header_513 by (simp only: replicate_2050 replicate_20)
  have len: "length ?H = 2050"
    by (simp add: header_513_def)
  have b0: "encode_channels BTW_S16 samples_513 def_513 4 0 512 0 (?H, (20, 0))
              = Some (?H, advance (20, 0) (4 + 2 * 512))"
    by (rule encode_channels_zeros [OF ch])
      (simp_all add: sample_at_513 len bitpos_def del: length_append)
  have a0: "advance (20, 0) (4 + 2 * 512) = (148, 4)"
    by (simp add: advance_bytes)
  have e2: "encode_blocks BTW_S16 samples_513 def_513 4 513 (?X, (149, 3)) = Some (?X, (149, 3))"
    by (subst encode_blocks.simps) (simp add: sc)
  have e1: "encode_blocks BTW_S16 samples_513 def_513 4 512 (?H, (148, 4)) = Some (?X, (149, 3))"
    using encode_block1_513 e2 by (subst encode_blocks.simps) (simp add: sc block_cap_513)
  have e0: "encode_blocks BTW_S16 samples_513 def_513 4 0 (?H, (20, 0)) = Some (?X, (149, 3))"
    using b0 e1 unfolding a0 by (subst encode_blocks.simps) (simp add: sc block_cap_513)
  have "btw_encode BTW_S16 (Some samples_513) (Some def_513) (Some 0) = Returned (?X, 150)"
    by (simp add: btw_encode_def b m hdr e0) (simp add: def_513_def)
  then show ?thesis
    by (simp add: encoded_stream_def stream_513_def header_513_def take_130_513)
qed

lemma stream_513_nth: "20 \<le> q \<Longrightarrow> q < 149 \<Longrightarrow> stream_513 ! q = 0"
  by (simp add: stream_513_def header_513_def nth_append)

lemma sample_index_513: "f < 513 \<Longrightarrow> sample_index def_513 f 0 = f"
  by (simp add: sample_index_def def_513_def u64_id)

lemma decode_block1_513:
  assumes "length outp1 = 513"
  shows "decode_channels BTW_S16 stream_513 def_513 4 512 1 0 (outp1, 512, (149, 0))
           = Some (outp1[512 := Some 0], 513, (150, 0))"
  using assms unfolding stream_513_def def_513_def header_513_def
  by (simp add: codec_eval nth_append cong: bind_weak_cong let_weak_cong)

lemma decode_blocks_513:
  "decode_blocks BTW_S16 stream_513 def_513 4 0 (replicate 513 None, 0, (20, 0))
     = Some (replicate 513 (Some 0), 513, (150, 0))"
proof -
  have ch: "unat (channels def_513) = 1" and sc: "unat (sample_count def_513) = 513"
    by (simp_all add: def_513_def)
  have len: "length stream_513 = 150"
    by (simp add: stream_513_def header_513_def)
  have "\<exists>outp'. decode_channels BTW_S16 stream_513 def_513 4 0 512 0 (replicate 513 None, 0, (20, 0))
                    = Some (outp', 0 + 512, advance (20, 0) (4 + 2 * 512))
           \<and> length outp' = length (replicate 513 (None :: int option))
           \<and> (\<forall>m<length (replicate 513 (None :: int option)).
                 outp' ! m = Some 0 \<or> outp' ! m = replicate 513 None ! m)
           \<and> (\<forall>l<512. outp' ! sample_index def_513 (0 + l) 0 = Some 0)"
    by (rule decode_channels_zeros [OF ch, where lo = 20 and hi = 149])
      (simp_all add: len bitpos_def sample_index_513 stream_513_nth)
  moreover have a0: "advance (20, 0) (4 + 2 * 512) = (148, 4)"
    by (simp add: advance_bytes)
  ultimately obtain outp1 where
    c0: "decode_channels BTW_S16 stream_513 def_513 4 0 512 0 (replicate 513 None, 0, (20, 0))
           = Some (outp1, 512, (148, 4))"
    and l1: "length outp1 = 513"
    and z1: "\<forall>l<512. outp1 ! l = Some 0"
    by (auto simp: sample_index_513)
  have "outp1[512 := Some 0] ! m = Some 0" if "m < 513" for m
  proof (cases "m = 512")
    case True
    with l1 show ?thesis
      by simp
  next
    case False
    with that have "m < 512"
      by simp
    with z1 have "outp1 ! m = Some 0"
      by blast
    with False show ?thesis
      by simp
  qed
  then have o2: "outp1[512 := Some 0] = replicate 513 (Some 0)"
    by (simp add: list_eq_iff_nth_eq l1)
  have d2: "decode_blocks BTW_S16 stream_513 def_513 4 513 (replicate 513 (Some 0), 513, (150, 0))
              = Some (replicate 513 (Some 0), 513, (150, 0))"
    by (subst decode_blocks.simps) (simp add: sc)
  have d1: "decode_blocks BTW_S16 stream_513 def_513 4 512 (outp1, 512, (149, 0))
              = Some (replicate 513 (Some 0), 513, (150, 0))"
    using decode_block1_513 [OF l1]
    by (subst decode_blocks.simps)
      (simp add: sc block_cap_513 decode_block_def o2 decode_align_def d2)
  show ?thesis
    by (subst decode_blocks.simps)
      (simp add: sc block_cap_513 decode_block_def c0 decode_align_def d1)
qed

lemma btw_read_metadata_513:
  "btw_read_metadata (Some stream_513) (Some zero_def) = Some (Some def_513)"
  unfolding stream_513_def def_513_def header_513_def
  by (simp add: codec_eval nth_append cong: bind_weak_cong let_weak_cong)

lemma btw_decode_stream_513:
  "btw_decode BTW_S16 (Some stream_513) (Some zero_def) (Some 0)
     = Returned (Some def_513, Some (replicate 513 (Some 0), 513))"
proof -
  have b: "bits_required (uint (bits_per_sample def_513)) = Some 4"
    by (simp add: def_513_def bits_required_def bits_required_loop.simps Let_def)
  have a: "decode_alloc BTW_S16 def_513 = 513"
    by (simp add: decode_alloc_def def_513_def fmt_size_def u64_def)
  show ?thesis
    by (simp add: btw_decode_def btw_read_metadata_513 b a decode_blocks_513)
      (simp add: def_513_def)
qed

text \<open>
  Claim C1, at an input where the code leaves it: one channel, 16 bits per sample, 513
  frames, 512 samples 0 and then the sample 1. The first block takes 4 + 2 * 512 bits, so
  the encoder starts the second block at bit 4 of byte 148 and writes its Rice parameter 0
  there. The decoder skips the rest of byte 148, reads the Rice parameter 2 from byte 149
  and returns 0 for the last sample.
\<close>

theorem round_trip_two_blocks:
  "encoded_stream BTW_S16 samples_513 def_513 = Returned stream_513
   \<and> btw_decode BTW_S16 (Some stream_513) (Some zero_def) (Some 0)
       = Returned (Some def_513, Some (replicate 513 (Some 0), 513))
   \<and> length samples_513 = unat (sample_count def_513) * unat (channels def_513)
   \<and> samples_513 ! 512 = 1
   \<and> replicate 513 (Some 0) ! 512 = Some (0 :: int)"
  using encoded_stream_513 btw_decode_stream_513
  by (simp add: samples_513_def def_513_def nth_append)

subsection \<open>The output of the decoder\<close>

lemma u64_mod: "u64 x = x mod 2 ^ 64"
proof -
  have "int x mod 2 ^ 64 = int (x mod 2 ^ 64)"
    by (simp add: of_nat_mod)
  then show ?thesis
    by (simp add: u64_def take_bit_eq_mod)
qed

lemma u64_less: "u64 x < 2 ^ 64"
  by (simp add: u64_mod)

lemma u64_add_left: "u64 (u64 a + b) = u64 (a + b)"
  by (simp add: u64_mod mod_add_left_eq)

lemma decode_samples_inv:
  assumes "decode_samples fmt data def i cap chan rice_len j prev (outp, k, cur) = Some (outp', k', cur')"
    and "k < 2 ^ 64"
  shows "length outp' = length outp
    \<and> (\<forall>m<length outp. outp ! m \<noteq> None \<longrightarrow> outp' ! m \<noteq> None)
    \<and> (\<forall>l. j \<le> l \<and> l < cap \<longrightarrow>
          sample_index def (i + l) chan < length outp
          \<and> outp' ! sample_index def (i + l) chan \<noteq> None)
    \<and> k' = u64 (k + (cap - j))"
  using assms
proof (induction "cap - j" arbitrary: j prev outp k cur)
  case 0
  then have "outp' = outp" "k' = k" "cap \<le> j"
    by (simp_all add: decode_samples.simps)
  with 0 show ?case
    by (auto simp: u64_id)
next
  case (Suc n)
  then have lt: "j < cap"
    by simp
  let ?idx = "sample_index def (i + j) chan"
  from Suc.prems(1) lt obtain c3 v where
    idx: "?idx < length outp"
    and rest: "decode_samples fmt data def i cap chan rice_len (j + 1) v
        (outp[?idx := Some v], u64 (k + 1), c3) = Some (outp', k', cur')"
    by (simp only: decode_samples.simps [of _ _ _ _ _ _ _ j])
      (auto simp: Let_def bind_eq_Some_conv split: if_splits)
  from Suc.hyps(2) have n: "n = cap - (j + 1)"
    by simp
  from Suc.hyps(1) [OF n rest u64_less] have
    len: "length outp' = length outp"
    and keep: "\<forall>m<length outp. outp[?idx := Some v] ! m \<noteq> None \<longrightarrow> outp' ! m \<noteq> None"
    and new: "\<forall>l. j + 1 \<le> l \<and> l < cap \<longrightarrow>
          sample_index def (i + l) chan < length outp
          \<and> outp' ! sample_index def (i + l) chan \<noteq> None"
    and cnt: "k' = u64 (u64 (k + 1) + (cap - (j + 1)))"
    by simp_all
  have keep': "\<forall>m<length outp. outp ! m \<noteq> None \<longrightarrow> outp' ! m \<noteq> None"
  proof (intro allI impI)
    fix m
    assume m: "m < length outp" "outp ! m \<noteq> None"
    then have "outp[?idx := Some v] ! m \<noteq> None"
      by (cases "m = ?idx") simp_all
    with keep m(1) show "outp' ! m \<noteq> None"
      by blast
  qed
  from idx have "outp[?idx := Some v] ! ?idx \<noteq> None"
    by simp
  with keep idx have here: "outp' ! ?idx \<noteq> None"
    by blast
  have new': "\<forall>l. j \<le> l \<and> l < cap \<longrightarrow>
          sample_index def (i + l) chan < length outp
          \<and> outp' ! sample_index def (i + l) chan \<noteq> None"
  proof (intro allI impI)
    fix l
    assume l: "j \<le> l \<and> l < cap"
    show "sample_index def (i + l) chan < length outp
          \<and> outp' ! sample_index def (i + l) chan \<noteq> None"
    proof (cases "l = j")
      case True
      with idx here show ?thesis
        by simp
    next
      case False
      with l have "j + 1 \<le> l \<and> l < cap"
        by simp
      with new show ?thesis
        by blast
    qed
  qed
  have "k + 1 + (cap - (j + 1)) = k + (cap - j)"
    using lt by simp
  with cnt have cnt': "k' = u64 (k + (cap - j))"
    by (simp only: u64_add_left)
  from len keep' new' cnt' show ?case
    by blast
qed

lemma decode_channels_inv:
  assumes "decode_channels fmt data def bprl i cap chan (outp, k, cur) = Some (outp', k', cur')"
    and "k < 2 ^ 64"
  shows "length outp' = length outp
    \<and> (\<forall>m<length outp. outp ! m \<noteq> None \<longrightarrow> outp' ! m \<noteq> None)
    \<and> (\<forall>c l. chan \<le> c \<and> c < unat (channels def) \<and> l < cap \<longrightarrow>
          sample_index def (i + l) c < length outp
          \<and> outp' ! sample_index def (i + l) c \<noteq> None)
    \<and> k' = u64 (k + (unat (channels def) - chan) * cap)"
  using assms
proof (induction "unat (channels def) - chan" arbitrary: chan outp k cur)
  case 0
  then have "outp' = outp" "k' = k" "unat (channels def) \<le> chan"
    by (simp_all add: decode_channels.simps)
  with 0 show ?case
    by (auto simp: u64_id)
next
  case (Suc n)
  then have lt: "chan < unat (channels def)"
    by simp
  from Suc.prems(1) lt obtain rice_len c1 o1 k1 c2 where
    s: "decode_samples fmt data def i cap chan (nat (signed_take_bit 31 rice_len)) 0 0
              (outp, k, c1) = Some (o1, k1, c2)"
    and rest: "decode_channels fmt data def bprl i cap (chan + 1) (o1, k1, c2) = Some (outp', k', cur')"
    by (simp only: decode_channels.simps [of _ _ _ _ _ _ chan])
      (auto simp: bind_eq_Some_conv)
  from decode_samples_inv [OF s Suc.prems(2)] have
    len1: "length o1 = length outp"
    and keep1: "\<forall>m<length outp. outp ! m \<noteq> None \<longrightarrow> o1 ! m \<noteq> None"
    and new1: "\<forall>l. l < cap \<longrightarrow>
          sample_index def (i + l) chan < length outp
          \<and> o1 ! sample_index def (i + l) chan \<noteq> None"
    and cnt1: "k1 = u64 (k + cap)"
    by simp_all
  have k1: "k1 < 2 ^ 64"
    by (simp only: cnt1 u64_less)
  from Suc.hyps(2) have n: "n = unat (channels def) - (chan + 1)"
    by simp
  from Suc.hyps(1) [OF n rest k1] have
    len: "length outp' = length outp"
    and keep: "\<forall>m<length outp. o1 ! m \<noteq> None \<longrightarrow> outp' ! m \<noteq> None"
    and new: "\<forall>c l. chan + 1 \<le> c \<and> c < unat (channels def) \<and> l < cap \<longrightarrow>
          sample_index def (i + l) c < length outp
          \<and> outp' ! sample_index def (i + l) c \<noteq> None"
    and cnt: "k' = u64 (k1 + (unat (channels def) - (chan + 1)) * cap)"
    by (simp_all add: len1)
  have keep': "\<forall>m<length outp. outp ! m \<noteq> None \<longrightarrow> outp' ! m \<noteq> None"
    using keep1 keep by blast
  have new': "\<forall>c l. chan \<le> c \<and> c < unat (channels def) \<and> l < cap \<longrightarrow>
          sample_index def (i + l) c < length outp
          \<and> outp' ! sample_index def (i + l) c \<noteq> None"
  proof (intro allI impI)
    fix c l
    assume cl: "chan \<le> c \<and> c < unat (channels def) \<and> l < cap"
    show "sample_index def (i + l) c < length outp
          \<and> outp' ! sample_index def (i + l) c \<noteq> None"
    proof (cases "c = chan")
      case True
      from cl new1 have "sample_index def (i + l) chan < length outp
          \<and> o1 ! sample_index def (i + l) chan \<noteq> None"
        by blast
      with keep True show ?thesis
        by blast
    next
      case False
      with cl have "chan + 1 \<le> c \<and> c < unat (channels def) \<and> l < cap"
        by simp
      with new show ?thesis
        by blast
    qed
  qed
  have "k + cap + (unat (channels def) - (chan + 1)) * cap = k + (unat (channels def) - chan) * cap"
  proof -
    from lt have "unat (channels def) - chan = Suc (unat (channels def) - (chan + 1))"
      by simp
    then show ?thesis
      by simp
  qed
  with cnt have cnt': "k' = u64 (k + (unat (channels def) - chan) * cap)"
    by (simp only: cnt1 u64_add_left)
  from len keep' new' cnt' show ?case
    by blast
qed

lemma decode_blocks_inv:
  assumes "decode_blocks fmt data def bprl i (outp, k, cur) = Some (outp', k', cur')"
    and "k < 2 ^ 64"
  shows "length outp' = length outp
    \<and> (\<forall>m<length outp. outp ! m \<noteq> None \<longrightarrow> outp' ! m \<noteq> None)
    \<and> (\<forall>f c. i \<le> f \<and> f < unat (sample_count def) \<and> c < unat (channels def) \<longrightarrow>
          sample_index def f c < length outp
          \<and> outp' ! sample_index def f c \<noteq> None)
    \<and> k' = u64 (k + (unat (sample_count def) - i) * unat (channels def))"
  using assms
proof (induction "unat (sample_count def) - i" arbitrary: i outp k cur rule: less_induct)
  case less
  show ?case
  proof (cases "i < unat (sample_count def)")
    case False
    with less.prems have "outp' = outp" "k' = k"
      by (simp_all add: decode_blocks.simps)
    with False less.prems(2) show ?thesis
      by (auto simp: u64_id)
  next
    case True
    let ?cap = "block_cap def i"
    from True have cap: "0 < ?cap" "?cap \<le> unat (sample_count def) - i"
      by (simp_all add: block_cap_def BTW_BLOCK_SIZE_def)
    from less.prems(1) True obtain o1 k1 c1 c1' where
      ch: "decode_channels fmt data def bprl i ?cap 0 (outp, k, cur) = Some (o1, k1, c1)"
      and rest: "decode_blocks fmt data def bprl (i + ?cap) (o1, k1, c1') = Some (outp', k', cur')"
      by (simp only: decode_blocks.simps [of _ _ _ _ i])
        (auto simp: decode_block_def decode_align_def bind_eq_Some_conv)
    from decode_channels_inv [OF ch less.prems(2)] have
      len1: "length o1 = length outp"
      and keep1: "\<forall>m<length outp. outp ! m \<noteq> None \<longrightarrow> o1 ! m \<noteq> None"
      and new1: "\<forall>c l. c < unat (channels def) \<and> l < ?cap \<longrightarrow>
          sample_index def (i + l) c < length outp
          \<and> o1 ! sample_index def (i + l) c \<noteq> None"
      and cnt1: "k1 = u64 (k + unat (channels def) * ?cap)"
      by simp_all
    have k1: "k1 < 2 ^ 64"
      by (simp only: cnt1 u64_less)
    from cap True have smaller: "unat (sample_count def) - (i + ?cap) < unat (sample_count def) - i"
      by simp
    from less.hyps [OF smaller rest k1] have
      len: "length outp' = length outp"
      and keep: "\<forall>m<length outp. o1 ! m \<noteq> None \<longrightarrow> outp' ! m \<noteq> None"
      and new: "\<forall>f c. i + ?cap \<le> f \<and> f < unat (sample_count def) \<and> c < unat (channels def) \<longrightarrow>
          sample_index def f c < length outp
          \<and> outp' ! sample_index def f c \<noteq> None"
      and cnt: "k' = u64 (k1 + (unat (sample_count def) - (i + ?cap)) * unat (channels def))"
      by (simp_all add: len1)
    have keep': "\<forall>m<length outp. outp ! m \<noteq> None \<longrightarrow> outp' ! m \<noteq> None"
      using keep1 keep by blast
    have new': "\<forall>f c. i \<le> f \<and> f < unat (sample_count def) \<and> c < unat (channels def) \<longrightarrow>
          sample_index def f c < length outp
          \<and> outp' ! sample_index def f c \<noteq> None"
    proof (intro allI impI)
      fix f c
      assume fc: "i \<le> f \<and> f < unat (sample_count def) \<and> c < unat (channels def)"
      show "sample_index def f c < length outp \<and> outp' ! sample_index def f c \<noteq> None"
      proof (cases "f < i + ?cap")
        case True
        with fc have "c < unat (channels def) \<and> f - i < ?cap" "i + (f - i) = f"
          by auto
        with new1 have "sample_index def f c < length outp \<and> o1 ! sample_index def f c \<noteq> None"
          by metis
        with keep show ?thesis
          by blast
      next
        case False
        with fc have "i + ?cap \<le> f \<and> f < unat (sample_count def) \<and> c < unat (channels def)"
          by simp
        with new show ?thesis
          by blast
      qed
    qed
    have "k + unat (channels def) * ?cap + (unat (sample_count def) - (i + ?cap)) * unat (channels def)
            = k + (unat (sample_count def) - i) * unat (channels def)"
    proof -
      from cap have "unat (sample_count def) - i = ?cap + (unat (sample_count def) - (i + ?cap))"
        by simp
      then have "(unat (sample_count def) - i) * unat (channels def)
                   = (?cap + (unat (sample_count def) - (i + ?cap))) * unat (channels def)"
        by simp
      then show ?thesis
        by (simp add: algebra_simps)
    qed
    with cnt have cnt': "k' = u64 (k + (unat (sample_count def) - i) * unat (channels def))"
      by (simp only: cnt1 u64_add_left)
    from len keep' new' cnt' show ?thesis
      by blast
  qed
qed

lemma fmt_size_pos: "0 < fmt_size fmt"
  by (cases fmt) (simp_all add: fmt_size_def)

lemma decode_alloc_le: "decode_alloc fmt def \<le> unat (sample_count def) * unat (channels def)"
proof -
  let ?n = "unat (sample_count def) * unat (channels def)"
  have "u64 (?n * fmt_size fmt) div fmt_size fmt \<le> (?n * fmt_size fmt) div fmt_size fmt"
    by (rule div_le_mono) (rule u64_le)
  with fmt_size_pos [of fmt] show ?thesis
    by (simp add: decode_alloc_def)
qed

lemma decode_alloc_less: "decode_alloc fmt def < 2 ^ 64"
proof -
  have "decode_alloc fmt def \<le> u64 (unat (sample_count def) * unat (channels def) * fmt_size fmt)"
    by (simp add: decode_alloc_def)
  with u64_less [of "unat (sample_count def) * unat (channels def) * fmt_size fmt"] show ?thesis
    by simp
qed

text \<open>
  Claim C10: whenever \<^verbatim>\<open>btw_decode\<close> returns a buffer, whatever the input stream and the
  struct the caller passed, the three arguments are present, the struct holds parameters
  that are all non-zero, the count left in \<^verbatim>\<open>*out_len\<close> is \<open>sample_count * channels\<close>, the
  buffer has that many elements and the decoder has assigned every one of them.
\<close>

theorem btw_decode_output_count:
  assumes "btw_decode fmt data def out_len = Returned (d', Some (outp, k))"
  shows "\<exists>d. d' = Some d
    \<and> k = unat (sample_count d) * unat (channels d)
    \<and> length outp = k
    \<and> None \<notin> set outp
    \<and> channels d \<noteq> 0 \<and> bits_per_sample d \<noteq> 0 \<and> sample_rate d \<noteq> 0 \<and> sample_count d \<noteq> 0
    \<and> data \<noteq> None \<and> def \<noteq> None \<and> out_len \<noteq> None"
proof -
  from assms have args: "data \<noteq> None" "def \<noteq> None" "out_len \<noteq> None"
    by (auto simp: btw_decode_def split: option.splits)
  from assms obtain d bytes bprl cur' where
    d': "d' = Some d"
    and nz: "channels d \<noteq> 0" "sample_count d \<noteq> 0"
    and nz': "bits_per_sample d \<noteq> 0" "sample_rate d \<noteq> 0"
    and run: "decode_blocks fmt bytes d bprl 0 (replicate (decode_alloc fmt d) None, 0, (20, 0))
                = Some (outp, k, cur')"
    by (auto simp: btw_decode_def Let_def bind_eq_Some_conv split: option.splits if_splits)
  let ?S = "unat (sample_count d)" and ?W = "unat (channels d)" and ?A = "decode_alloc fmt d"
  from nz have pos: "0 < ?W" "0 < ?S"
    by (simp_all add: unat_gt_0)
  have "length outp = length (replicate ?A (None :: int option))
    \<and> (\<forall>m<length (replicate ?A (None :: int option)).
          replicate ?A (None :: int option) ! m \<noteq> None \<longrightarrow> outp ! m \<noteq> None)
    \<and> (\<forall>f c. 0 \<le> f \<and> f < ?S \<and> c < ?W \<longrightarrow>
          sample_index d f c < length (replicate ?A (None :: int option))
          \<and> outp ! sample_index d f c \<noteq> None)
    \<and> k = u64 (0 + (?S - 0) * ?W)"
    by (rule decode_blocks_inv [OF run]) simp
  then have len: "length outp = ?A"
    and all: "\<forall>f c. f < ?S \<and> c < ?W \<longrightarrow> sample_index d f c < ?A \<and> outp ! sample_index d f c \<noteq> None"
    and cnt: "k = u64 (?S * ?W)"
    by simp_all
  have at: "r < ?A \<and> outp ! r \<noteq> None" if "r < ?S * ?W" "r < 2 ^ 64" for r
  proof -
    from that(1) have "r div ?W < ?S"
      by (simp add: less_mult_imp_div_less)
    moreover from pos have "r mod ?W < ?W"
      by simp
    ultimately have "sample_index d (r div ?W) (r mod ?W) < ?A
        \<and> outp ! sample_index d (r div ?W) (r mod ?W) \<noteq> None"
      using all by blast
    moreover have "sample_index d (r div ?W) (r mod ?W) = r"
      using that(2) by (simp add: sample_index_def u64_id)
    ultimately show ?thesis
      by simp
  qed
  have "\<not> ?A < ?S * ?W"
  proof
    assume "?A < ?S * ?W"
    from at [OF this decode_alloc_less] show False
      by simp
  qed
  with decode_alloc_le [of fmt d] have A: "?A = ?S * ?W"
    by simp
  with decode_alloc_less [of fmt d] have small: "?S * ?W < 2 ^ 64"
    by simp
  then have k: "k = ?S * ?W"
    by (simp add: cnt u64_id)
  have "None \<notin> set outp"
  proof
    assume "None \<in> set outp"
    then obtain m where m: "m < length outp" "outp ! m = None"
      by (auto simp: in_set_conv_nth)
    from m(1) have "m < ?S * ?W"
      by (simp add: len A)
    moreover from this small have "m < 2 ^ 64"
      by simp
    ultimately have "outp ! m \<noteq> None"
      using at by blast
    with m(2) show False
      by simp
  qed
  with d' k len A nz nz' args show ?thesis
    by simp
qed

theorem btw_decode_output_count_witness:
  "btw_decode BTW_S16 (Some stream_513) (Some zero_def) (Some 0)
     = Returned (Some def_513, Some (replicate 513 (Some 0), 513))
   \<and> 513 = unat (sample_count def_513) * unat (channels def_513)
   \<and> length (replicate 513 (Some (0 :: int))) = 513
   \<and> None \<notin> set (replicate 513 (Some (0 :: int)))
   \<and> channels def_513 \<noteq> 0 \<and> bits_per_sample def_513 \<noteq> 0
   \<and> sample_rate def_513 \<noteq> 0 \<and> sample_count def_513 \<noteq> 0"
  using btw_decode_output_count [OF btw_decode_stream_513] btw_decode_stream_513
  by simp

subsection \<open>Reading the header\<close>

lemma encode_header_long:
  "encode_header (replicate 20 0) def_long = Some (header_long, (20, 0))"
  unfolding def_long_def header_long_def replicate_20
  by (simp add: codec_eval cong: bind_weak_cong let_weak_cong)

lemma btw_read_metadata_long:
  "btw_read_metadata (Some header_long) (Some zero_def)
     = Some (Some (def_long\<lparr>sample_count := 18446744071562067968\<rparr>))"
  unfolding def_long_def header_long_def
  by (simp add: codec_eval cong: bind_weak_cong let_weak_cong)

text \<open>
  Claim C4, at an input where the code leaves it: the header that \<^verbatim>\<open>btw_encode\<close> writes for
  2147483648 frames. The magic matches, and \<^verbatim>\<open>btw_read_metadata\<close> reads the frame count with
  \<^verbatim>\<open>grab_number\<close>, whose shift in \<^verbatim>\<open>int\<close> turns the byte 128 of the fourth position into
  -2147483648: the struct holds the frame count 18446744071562067968. With the first byte
  of the same header changed, the struct is left as it was.
\<close>

theorem read_metadata_long_stream:
  "encode_header (replicate 20 0) def_long = Some (header_long, (20, 0))
   \<and> btw_read_metadata (Some header_long) (Some zero_def)
       = Some (Some (def_long\<lparr>sample_count := 18446744071562067968\<rparr>))
   \<and> sample_count def_long = 2147483648
   \<and> btw_read_metadata (Some (header_long[0 := 0])) (Some def_long) = Some (Some def_long)"
  using encode_header_long btw_read_metadata_long
  by (simp add: def_long_def header_long_def btw_read_metadata_def byte_at_def)

end
